theory Spec2Isabelle
  imports Main "HOL-Library.Word" "HOL-Library.Multiset" "HOL-Library.Char_ord"
    "HOL-Library.List_Lexorder"
begin

section \<open>Account storage of the Cadence runtime (runtime/storage.go)\<close>

subsection \<open>Data\<close>

text \<open>
  Go byte slices and byte arrays are lists of 8-bit words; \<open>common.Address\<close> is the
  array \<open>[8]byte\<close>. A Go string is a sequence of bytes, here a \<open>string\<close> whose
  characters are bytes; the conversion \<open>[]byte(key)\<close> keeps the same bytes, so a key that
  is passed to the ledger stays a \<open>string\<close>. Both orders used by the source, \<open>bytes.Compare\<close>
  on slices and \<open><\<close> on strings, compare byte by byte from the left, a proper prefix being
  smaller: this is the order \<open><\<close> of lists over the unsigned order of bytes.
\<close>

type_synonym byte = "8 word"
type_synonym bytes = "byte list"

definition bytes_Compare :: "bytes \<Rightarrow> bytes \<Rightarrow> int" where
  "bytes_Compare a b = (if a < b then - 1 else if a = b then 0 else 1)"

text \<open>\<open>interpreter.StorageKey\<close>: the address of the account and the key in its storage.\<close>

record StorageKey =
  Address :: bytes
  Key :: string

text \<open>
  \<open>interpreter.Value\<close> is an interface: a variable of that type holds a value (\<open>Some v\<close>)
  or \<open>nil\<close> (\<open>None\<close>). \<open>interpreter.OptionalValue\<close> is an interface too. Its dynamic
  values are a pointer to a \<open>SomeValue\<close> struct, whose field \<open>Value\<close> is again an
  \<open>interpreter.Value\<close>, the struct \<open>NilValue\<close>, a nil pointer of type \<open>*SomeValue\<close>, and
  anything else (the nil interface, another implementation).
\<close>

datatype 'v OptionalValue =
    SomeValue "'v option"
  | NilValue
  | NilSomeValuePointer
  | OtherOptionalValue

text \<open>
  The panics of \<open>WriteValue\<close>: the unreachable error of its default branch, and the
  runtime error of reading a field through a nil pointer. \<open>ValueExists\<close> and
  \<open>ReadValue\<close> panic with the error they got, which is the \<open>Inl\<close> of their result.
\<close>

datatype panic =
    UnreachableError
  | NilPointerDereference

text \<open>
  What the storage asks of its collaborators, in the order of the calls. The first three are
  the calls of \<open>atree.Ledger\<close> with their arguments; the last is the flush of the slab
  storage, \<open>PersistentSlabStorage.FastCommit\<close>.
\<close>

datatype call =
    ValueExistsCall bytes string
  | GetValueCall bytes string
  | SetValueCall bytes string bytes
  | FastCommitCall

text \<open>
  The struct \<open>Storage\<close>. The three Go maps are partial functions from storage keys to
  values that may be \<open>nil\<close>; \<open>reportMetric\<close> runs the function it is given and has no
  other effect on the storage, so it is not a field here. \<open>calls\<close> is not a field of the
  source: it records the calls that the functions of \<open>storage.go\<close> have made so far,
  oldest first. What the slab storage asks of the ledger on its own is not recorded.
\<close>

record ('v, 'sl, 'l) Storage =
  PersistentSlabStorage :: 'sl
  deltas :: "StorageKey \<rightharpoonup> 'v option"
  cache :: "StorageKey \<rightharpoonup> 'v option"
  contractUpdates :: "StorageKey \<rightharpoonup> 'v option"
  Ledger :: 'l
  calls :: "call list"

text \<open>
  The code that \<open>storage.go\<close> calls and that lies outside of it: the ledger of the host
  (an error of the host is \<open>Inl\<close>, and the ledger may change its own state on every call;
  a host that panics instead of returning is not modelled),
  the codec of the interpreter and of atree, the slab storage, and \<open>sort.Slice\<close> of the Go
  library. They are parameters of the model.
  \<^item> \<open>Value_Storable v slabs ledger address\<close> is
    \<open>v.Storable(s, address, MaxInlineElementSize)\<close> and \<open>Storable_StoredValue\<close> is
    \<open>storable.StoredValue(s)\<close>: they see the storage through the interface
    \<open>atree.SlabStorage\<close>, that is the slabs, which sit on the same ledger.
  \<^item> \<open>Storable_Encode\<close> gives the bytes that \<open>storable.Encode(encoder)\<close> writes into the
    encoder, \<open>CBOR_Flush\<close> is \<open>encoder.CBOR.Flush()\<close>, which moves them into the buffer or
    fails.
  \<^item> \<open>MustConvertStoredValue\<close> panics with an error (\<open>Inl\<close>) or converts.
\<close>

record ('v, 'st, 'av, 'sl, 'l, 'e) externals =
  Ledger_ValueExists :: "'l \<Rightarrow> bytes \<Rightarrow> string \<Rightarrow> ('e + bool) \<times> 'l"
  Ledger_GetValue :: "'l \<Rightarrow> bytes \<Rightarrow> string \<Rightarrow> ('e + bytes) \<times> 'l"
  Ledger_SetValue :: "'l \<Rightarrow> bytes \<Rightarrow> string \<Rightarrow> bytes \<Rightarrow> 'e option \<times> 'l"
  DecodeStorable :: "bytes \<Rightarrow> 'e + 'st"
  Storable_StoredValue :: "'st \<Rightarrow> 'sl \<Rightarrow> 'l \<Rightarrow> ('e + 'av) \<times> 'sl \<times> 'l"
  MustConvertStoredValue :: "'av \<Rightarrow> 'e + 'v"
  Value_Storable :: "'v \<Rightarrow> 'sl \<Rightarrow> 'l \<Rightarrow> bytes \<Rightarrow> ('e + 'st) \<times> 'sl \<times> 'l"
  Storable_Encode :: "'st \<Rightarrow> 'e + bytes"
  CBOR_Flush :: "bytes \<Rightarrow> 'e option"
  FastCommit :: "'sl \<Rightarrow> 'l \<Rightarrow> 'e option \<times> 'sl \<times> 'l"
  sort_Slice :: "(StorageKey \<times> 'v option \<Rightarrow> StorageKey \<times> 'v option \<Rightarrow> bool)
    \<Rightarrow> (StorageKey \<times> 'v option) list \<Rightarrow> (StorageKey \<times> 'v option) list"

subsection \<open>NewStorage, ValueExists, ReadValue, WriteValue, recordContractUpdate\<close>

definition NewStorage :: "'l \<Rightarrow> 'sl \<Rightarrow> ('v, 'sl, 'l) Storage" where
  "NewStorage ledger persistentSlabStorage =
     \<lparr>PersistentSlabStorage = persistentSlabStorage,
      deltas = Map.empty, cache = Map.empty, contractUpdates = Map.empty,
      Ledger = ledger, calls = []\<rparr>"

text \<open>A call of the ledger changes the ledger and is recorded.\<close>

definition called :: "call \<Rightarrow> 'l \<Rightarrow> ('v, 'sl, 'l) Storage \<Rightarrow> ('v, 'sl, 'l) Storage" where
  "called c l s = s\<lparr>Ledger := l, calls := calls s @ [c]\<rparr>"

definition ValueExists ::
  "('v, 'st, 'av, 'sl, 'l, 'e) externals \<Rightarrow> bytes \<Rightarrow> string \<Rightarrow> ('v, 'sl, 'l) Storage
    \<Rightarrow> ('e + bool) \<times> ('v, 'sl, 'l) Storage" where
  "ValueExists ext address key s =
     (let storageKey = \<lparr>Address = address, Key = key\<rparr> in
      case deltas s storageKey of
        Some value \<Rightarrow> (Inr (value \<noteq> None), s)
      | None \<Rightarrow>
         (case cache s storageKey of
            Some value \<Rightarrow> (Inr (value \<noteq> None), s)
          | None \<Rightarrow>
             (case Ledger_ValueExists ext (Ledger s) address key of
                (res, l) \<Rightarrow>
                  (let s1 = called (ValueExistsCall address key) l s in
                   case res of
                     Inl err \<Rightarrow> (Inl err, s1)
                   | Inr exists \<Rightarrow>
                       if \<not> exists
                       then (Inr exists, s1\<lparr>cache := (cache s1)(storageKey \<mapsto> None)\<rparr>)
                       else (Inr exists, s1)))))"

definition ReadValue ::
  "('v, 'st, 'av, 'sl, 'l, 'e) externals \<Rightarrow> bytes \<Rightarrow> string \<Rightarrow> ('v, 'sl, 'l) Storage
    \<Rightarrow> ('e + 'v OptionalValue) \<times> ('v, 'sl, 'l) Storage" where
  "ReadValue ext address key s =
     (let storageKey = \<lparr>Address = address, Key = key\<rparr> in
      case deltas s storageKey of
        Some value \<Rightarrow>
          (case value of
             None \<Rightarrow> (Inr NilValue, s)
           | Some v \<Rightarrow> (Inr (SomeValue (Some v)), s))
      | None \<Rightarrow>
         (case cache s storageKey of
            Some value \<Rightarrow>
              (case value of
                 None \<Rightarrow> (Inr NilValue, s)
               | Some v \<Rightarrow> (Inr (SomeValue (Some v)), s))
          | None \<Rightarrow>
             (case Ledger_GetValue ext (Ledger s) address key of
                (res, l) \<Rightarrow>
                  (let s1 = called (GetValueCall address key) l s in
                   case res of
                     Inl err \<Rightarrow> (Inl err, s1)
                   | Inr storedData \<Rightarrow>
                       if length storedData = 0
                       then (Inr NilValue, s1\<lparr>cache := (cache s1)(storageKey \<mapsto> None)\<rparr>)
                       else
                        (case DecodeStorable ext storedData of
                           Inl err \<Rightarrow> (Inl err, s1)
                         | Inr storable \<Rightarrow>
                            (case Storable_StoredValue ext storable
                                    (PersistentSlabStorage s1) (Ledger s1) of
                               (res2, sl, l2) \<Rightarrow>
                                 (let s2 = s1\<lparr>PersistentSlabStorage := sl, Ledger := l2\<rparr> in
                                  case res2 of
                                    Inl err \<Rightarrow> (Inl err, s2)
                                  | Inr storedValue \<Rightarrow>
                                     (case MustConvertStoredValue ext storedValue of
                                        Inl err \<Rightarrow> (Inl err, s2)
                                      | Inr value \<Rightarrow>
                                          (Inr (SomeValue (Some value)),
                                           s2\<lparr>cache := (cache s2)(storageKey \<mapsto> Some value)\<rparr>)))))))))"

text \<open>
  The type switch of \<open>WriteValue\<close>: a pointer to a \<open>SomeValue\<close> is read through, which
  panics when the pointer is nil; \<open>NilValue\<close> writes \<open>nil\<close>; the default branch panics
  with the unreachable error.
\<close>

definition WriteValue ::
  "bytes \<Rightarrow> string \<Rightarrow> 'v OptionalValue \<Rightarrow> ('v, 'sl, 'l) Storage
    \<Rightarrow> (panic + unit) \<times> ('v, 'sl, 'l) Storage" where
  "WriteValue address key value s =
     (let storageKey = \<lparr>Address = address, Key = key\<rparr> in
      case value of
        SomeValue typedValue_Value \<Rightarrow>
          (Inr (), s\<lparr>deltas := (deltas s)(storageKey \<mapsto> typedValue_Value)\<rparr>)
      | NilValue \<Rightarrow> (Inr (), s\<lparr>deltas := (deltas s)(storageKey \<mapsto> None)\<rparr>)
      | NilSomeValuePointer \<Rightarrow> (Inl NilPointerDereference, s)
      | OtherOptionalValue \<Rightarrow> (Inl UnreachableError, s))"

definition recordContractUpdate ::
  "bytes \<Rightarrow> string \<Rightarrow> 'v option \<Rightarrow> ('v, 'sl, 'l) Storage \<Rightarrow> ('v, 'sl, 'l) Storage" where
  "recordContractUpdate address key contract s =
     (let storageKey = \<lparr>Address = address, Key = key\<rparr> in
      s\<lparr>contractUpdates := (contractUpdates s)(storageKey \<mapsto> contract)\<rparr>)"

subsection \<open>Commit\<close>

text \<open>
  \<open>accountStorageEntry\<close> is a pair of a storage key and a value. A \<open>range\<close> over a Go map
  visits every key once, in an order that the Go runtime chooses anew each time; the order
  of the visit is the argument \<open>order\<close>, a list of the keys of the map.
\<close>

type_synonym 'v accountStorageEntry = "StorageKey \<times> 'v option"

definition range_map :: "(StorageKey \<rightharpoonup> 'v option) \<Rightarrow> StorageKey list \<Rightarrow> 'v accountStorageEntry list" where
  "range_map m order = List.map_filter (\<lambda>k. map_option (Pair k) (m k)) order"

definition visits :: "StorageKey list \<Rightarrow> (StorageKey \<rightharpoonup> 'v option) \<Rightarrow> bool" where
  "visits order m \<longleftrightarrow> distinct order \<and> set order = dom m"

text \<open>The function given to \<open>sort.Slice\<close>.\<close>

definition less_entry :: "'v accountStorageEntry \<Rightarrow> 'v accountStorageEntry \<Rightarrow> bool" where
  "less_entry x y =
     (let a = fst x; b = fst y in
      if bytes_Compare (Address a) (Address b) < 0 then True
      else if Key a < Key b then True
      else False)"

text \<open>
  \<open>insertionSort_func\<close> of Go's package sort, which is all that \<open>sort.Slice\<close> runs on a
  slice of fewer than seven elements (of at most twelve since Go 1.19): every element in turn
  is swapped with its left neighbour while \<open>less\<close> says it is smaller. \<open>sift\<close> holds the
  elements to the left nearest first.
\<close>

fun sift :: "('a \<Rightarrow> 'a \<Rightarrow> bool) \<Rightarrow> 'a \<Rightarrow> 'a list \<Rightarrow> 'a list" where
  "sift lt x [] = [x]"
| "sift lt x (y # ys) = (if lt x y then y # sift lt x ys else x # y # ys)"

fun insertion_loop :: "('a \<Rightarrow> 'a \<Rightarrow> bool) \<Rightarrow> 'a list \<Rightarrow> 'a list \<Rightarrow> 'a list" where
  "insertion_loop lt left [] = rev left"
| "insertion_loop lt left (x # xs) = insertion_loop lt (sift lt x left) xs"

definition insertionSort :: "('a \<Rightarrow> 'a \<Rightarrow> bool) \<Rightarrow> 'a list \<Rightarrow> 'a list" where
  "insertionSort lt xs = insertion_loop lt [] xs"

text \<open>
  The body of the loop over the sorted entries, up to the bytes to write: \<open>nil\<close> is written
  as no bytes, a value is made storable, encoded and flushed, and each of the three steps may
  return an error.
\<close>

definition encode_entry ::
  "('v, 'st, 'av, 'sl, 'l, 'e) externals \<Rightarrow> 'v accountStorageEntry \<Rightarrow> ('v, 'sl, 'l) Storage
    \<Rightarrow> ('e + bytes) \<times> ('v, 'sl, 'l) Storage" where
  "encode_entry ext entry s =
     (let address = Address (fst entry) in
      case snd entry of
        None \<Rightarrow> (Inr [], s)
      | Some value \<Rightarrow>
         (case Value_Storable ext value (PersistentSlabStorage s) (Ledger s) address of
            (res, sl, l) \<Rightarrow>
              (let s1 = s\<lparr>PersistentSlabStorage := sl, Ledger := l\<rparr> in
               case res of
                 Inl err \<Rightarrow> (Inl err, s1)
               | Inr storable \<Rightarrow>
                  (case Storable_Encode ext storable of
                     Inl err \<Rightarrow> (Inl err, s1)
                   | Inr buf \<Rightarrow>
                      (case CBOR_Flush ext buf of
                         Some err \<Rightarrow> (Inl err, s1)
                       | None \<Rightarrow> (Inr buf, s1))))))"

text \<open>One iteration of the loop: encode, then \<open>Ledger.SetValue\<close>.\<close>

definition write_entry ::
  "('v, 'st, 'av, 'sl, 'l, 'e) externals \<Rightarrow> 'v accountStorageEntry \<Rightarrow> ('v, 'sl, 'l) Storage
    \<Rightarrow> 'e option \<times> ('v, 'sl, 'l) Storage" where
  "write_entry ext entry s =
     (case encode_entry ext entry s of
        (Inl err, s1) \<Rightarrow> (Some err, s1)
      | (Inr encoded, s1) \<Rightarrow>
         (case Ledger_SetValue ext (Ledger s1) (Address (fst entry)) (Key (fst entry)) encoded of
            (err, l) \<Rightarrow>
              (err, called (SetValueCall (Address (fst entry)) (Key (fst entry)) encoded) l s1)))"

text \<open>The loop returns at the first error.\<close>

fun write_entries ::
  "('v, 'st, 'av, 'sl, 'l, 'e) externals \<Rightarrow> 'v accountStorageEntry list \<Rightarrow> ('v, 'sl, 'l) Storage
    \<Rightarrow> 'e option \<times> ('v, 'sl, 'l) Storage" where
  "write_entries ext [] s = (None, s)"
| "write_entries ext (entry # entries) s =
     (case write_entry ext entry s of
        (Some err, s1) \<Rightarrow> (Some err, s1)
      | (None, s1) \<Rightarrow> write_entries ext entries s1)"

text \<open>
  \<open>Commit\<close>: the entries of \<open>deltas\<close>, then those of \<open>contractUpdates\<close>, each map in the
  order of its visit; \<open>sort.Slice\<close>; the loop; the flush of the slab storage.
\<close>

definition accountStorageEntries ::
  "StorageKey list \<Rightarrow> StorageKey list \<Rightarrow> ('v, 'sl, 'l) Storage \<Rightarrow> 'v accountStorageEntry list" where
  "accountStorageEntries order_deltas order_updates s =
     range_map (deltas s) order_deltas @ range_map (contractUpdates s) order_updates"

definition Commit ::
  "('v, 'st, 'av, 'sl, 'l, 'e) externals \<Rightarrow> StorageKey list \<Rightarrow> StorageKey list
    \<Rightarrow> ('v, 'sl, 'l) Storage \<Rightarrow> 'e option \<times> ('v, 'sl, 'l) Storage" where
  "Commit ext order_deltas order_updates s =
     (case write_entries ext
        (sort_Slice ext less_entry (accountStorageEntries order_deltas order_updates s)) s of
        (Some err, s1) \<Rightarrow> (Some err, s1)
      | (None, s1) \<Rightarrow>
         (case FastCommit ext (PersistentSlabStorage s1) (Ledger s1) of
            (err, sl, l) \<Rightarrow> (err, (called FastCommitCall l s1)\<lparr>PersistentSlabStorage := sl\<rparr>)))"

subsection \<open>Calls in sequence\<close>

text \<open>Consecutive calls of \<open>WriteValue\<close> on one key; a panic ends the sequence.\<close>

fun WriteValues ::
  "bytes \<Rightarrow> string \<Rightarrow> 'v OptionalValue list \<Rightarrow> ('v, 'sl, 'l) Storage
    \<Rightarrow> (panic + unit) \<times> ('v, 'sl, 'l) Storage" where
  "WriteValues address key [] s = (Inr (), s)"
| "WriteValues address key (value # values) s =
     (case WriteValue address key value s of
        (Inl p, s1) \<Rightarrow> (Inl p, s1)
      | (Inr u, s1) \<Rightarrow> WriteValues address key values s1)"

text \<open>
  The calls that a transaction makes on its storage. A transaction goes on after a call that
  returned normally; it ends with a panic or with an error of \<open>Commit\<close>.
\<close>

datatype 'v operation =
    CallValueExists bytes string
  | CallReadValue bytes string
  | CallWriteValue bytes string "'v OptionalValue"
  | CallRecordContractUpdate bytes string "'v option"
  | CallCommit "StorageKey list" "StorageKey list"

fun perform ::
  "('v, 'st, 'av, 'sl, 'l, 'e) externals \<Rightarrow> 'v operation \<Rightarrow> ('v, 'sl, 'l) Storage
    \<Rightarrow> ('v, 'sl, 'l) Storage option" where
  "perform ext (CallValueExists address key) s =
     (case ValueExists ext address key s of (Inl err, s1) \<Rightarrow> None | (Inr b, s1) \<Rightarrow> Some s1)"
| "perform ext (CallReadValue address key) s =
     (case ReadValue ext address key s of (Inl err, s1) \<Rightarrow> None | (Inr v, s1) \<Rightarrow> Some s1)"
| "perform ext (CallWriteValue address key value) s =
     (case WriteValue address key value s of (Inl p, s1) \<Rightarrow> None | (Inr u, s1) \<Rightarrow> Some s1)"
| "perform ext (CallRecordContractUpdate address key contract) s =
     Some (recordContractUpdate address key contract s)"
| "perform ext (CallCommit order_deltas order_updates) s =
     (case Commit ext order_deltas order_updates s of
        (Some err, s1) \<Rightarrow> None
      | (None, s1) \<Rightarrow> Some s1)"

fun perform_all ::
  "('v, 'st, 'av, 'sl, 'l, 'e) externals \<Rightarrow> 'v operation list \<Rightarrow> ('v, 'sl, 'l) Storage
    \<Rightarrow> ('v, 'sl, 'l) Storage option" where
  "perform_all ext [] s = Some s"
| "perform_all ext (op # ops) s =
     (case perform ext op s of None \<Rightarrow> None | Some s1 \<Rightarrow> perform_all ext ops s1)"

fun writes_to :: "StorageKey \<Rightarrow> 'v operation \<Rightarrow> bool" where
  "writes_to k (CallWriteValue address key value) = (k = \<lparr>Address = address, Key = key\<rparr>)"
| "writes_to k (CallValueExists address key) = False"
| "writes_to k (CallReadValue address key) = False"
| "writes_to k (CallRecordContractUpdate address key contract) = False"
| "writes_to k (CallCommit order_deltas order_updates) = False"

subsection \<open>What one Commit asks of the ledger\<close>

text \<open>The calls that one \<open>Commit\<close> adds to those made before it.\<close>

definition calls_of_Commit ::
  "('v, 'st, 'av, 'sl, 'l, 'e) externals \<Rightarrow> StorageKey list \<Rightarrow> StorageKey list
    \<Rightarrow> ('v, 'sl, 'l) Storage \<Rightarrow> call list" where
  "calls_of_Commit ext order_deltas order_updates s =
     drop (length (calls s)) (calls (snd (Commit ext order_deltas order_updates s)))"

text \<open>The storage keys of the \<open>SetValue\<close> calls among some calls, in their order.\<close>

fun written_key :: "call \<Rightarrow> StorageKey option" where
  "written_key (SetValueCall address key encoded) = Some \<lparr>Address = address, Key = key\<rparr>"
| "written_key (ValueExistsCall address key) = None"
| "written_key (GetValueCall address key) = None"
| "written_key FastCommitCall = None"

definition written_keys :: "call list \<Rightarrow> StorageKey list" where
  "written_keys cs = List.map_filter written_key cs"

text \<open>
  \<open>sort.Slice\<close> reorders the slice it is given by swapping elements, whatever its function
  \<open>less\<close> answers: the result has the elements of the argument, each as often.
\<close>

definition permutes :: "('v, 'st, 'av, 'sl, 'l, 'e) externals \<Rightarrow> bool" where
  "permutes ext \<longleftrightarrow> (\<forall>lt xs. mset (sort_Slice ext lt xs) = mset xs)"

text \<open>
  \<open>encoding ext value address encoded\<close>: for some slab storage and ledger, the codec turns \<open>value\<close>
  of the account \<open>address\<close> into the bytes \<open>encoded\<close>.
\<close>

definition encoding ::
  "('v, 'st, 'av, 'sl, 'l, 'e) externals \<Rightarrow> 'v \<Rightarrow> bytes \<Rightarrow> bytes \<Rightarrow> bool" where
  "encoding ext value address encoded \<longleftrightarrow>
     (\<exists>sl l storable. fst (Value_Storable ext value sl l address) = Inr storable
        \<and> Storable_Encode ext storable = Inr encoded \<and> CBOR_Flush ext encoded = None)"

text \<open>
  Modelled from the spec: the value codec (the encoder behind \<open>Storable\<close> and \<open>Encode\<close>)
  is not in \<open>storage.go\<close>. The specification says of it that every top-level encoding begins
  with a format version byte; so the bytes of an encoded value are never empty.
\<close>

definition version_byte :: "('v, 'st, 'av, 'sl, 'l, 'e) externals \<Rightarrow> bool" where
  "version_byte ext \<longleftrightarrow> (\<forall>storable encoded. Storable_Encode ext storable = Inr encoded \<longrightarrow> encoded \<noteq> [])"

text \<open>
  \<open>written_as ext entry c\<close>: the call \<open>c\<close> is the \<open>SetValue\<close> of the entry, with no bytes
  for \<open>nil\<close> and with an encoding of the value otherwise.
\<close>

definition written_as ::
  "('v, 'st, 'av, 'sl, 'l, 'e) externals \<Rightarrow> 'v accountStorageEntry \<Rightarrow> call \<Rightarrow> bool" where
  "written_as ext entry c \<longleftrightarrow>
     (case snd entry of
        None \<Rightarrow> c = SetValueCall (Address (fst entry)) (Key (fst entry)) []
      | Some value \<Rightarrow>
          (\<exists>encoded. c = SetValueCall (Address (fst entry)) (Key (fst entry)) encoded
             \<and> encoding ext value (Address (fst entry)) encoded))"

text \<open>
  \<open>encoding_fails ext value sl l address err\<close>: with the slab storage \<open>sl\<close> and the
  ledger \<open>l\<close>, making
  \<open>value\<close> storable, encoding it or flushing the encoder returns the error \<open>err\<close>.
\<close>

definition encoding_fails ::
  "('v, 'st, 'av, 'sl, 'l, 'e) externals \<Rightarrow> 'v \<Rightarrow> 'sl \<Rightarrow> 'l \<Rightarrow> bytes \<Rightarrow> 'e \<Rightarrow> bool" where
  "encoding_fails ext value sl l address err \<longleftrightarrow>
     fst (Value_Storable ext value sl l address) = Inl err
     \<or> (\<exists>storable. fst (Value_Storable ext value sl l address) = Inr storable
          \<and> (Storable_Encode ext storable = Inl err
              \<or> (\<exists>buf. Storable_Encode ext storable = Inr buf \<and> CBOR_Flush ext buf = Some err)))"


subsection \<open>A ledger in memory and a codec of one byte, to run the storage on examples\<close>

text \<open>
  The ledger is a table from address and key to bytes, no bytes meaning absent; it refuses
  to write the key \<open>locked\<close>. A value is a byte and is encoded as itself, and the value
  255 cannot be made storable. The slab storage counts its flushes. \<open>sort.Slice\<close> is the
  insertion sort, as the examples have at most three entries.
\<close>

definition memory_externals ::
  "(byte, byte, byte, nat, bytes \<times> string \<Rightarrow> bytes, string) externals" where
  "memory_externals =
     \<lparr>Ledger_ValueExists = (\<lambda>l a k. (Inr (l (a, k) \<noteq> []), l)),
      Ledger_GetValue = (\<lambda>l a k. (Inr (l (a, k)), l)),
      Ledger_SetValue =
        (\<lambda>l a k bs. if k = ''locked'' then (Some ''host'', l) else (None, l((a, k) := bs))),
      DecodeStorable = (\<lambda>bs. case bs of [b] \<Rightarrow> Inr b | _ \<Rightarrow> Inl ''decode''),
      Storable_StoredValue = (\<lambda>st sl l. (Inr st, sl, l)),
      MustConvertStoredValue = Inr,
      Value_Storable =
        (\<lambda>v sl l a. if v = 255 then (Inl ''storable'', sl, l) else (Inr v, sl, l)),
      Storable_Encode = (\<lambda>st. Inr [st]),
      CBOR_Flush = (\<lambda>bs. None),
      FastCommit = (\<lambda>sl l. (None, Suc sl, l)),
      sort_Slice = insertionSort\<rparr>"

definition addr_A :: bytes where
  "addr_A = [0, 0, 0, 0, 0, 0, 0, 0x41]"

definition addr_B :: bytes where
  "addr_B = [0, 0, 0, 0, 0, 0, 0, 0x42]"

definition empty_storage :: "(byte, nat, bytes \<times> string \<Rightarrow> bytes) Storage" where
  "empty_storage = NewStorage (\<lambda>k. []) 0"

text \<open>A storage over a ledger that holds the byte 7 under the key \<open>k\<close> of account A.\<close>

definition seeded_storage :: "(byte, nat, bytes \<times> string \<Rightarrow> bytes) Storage" where
  "seeded_storage = NewStorage ((\<lambda>k. [])((addr_A, ''k'') := [7])) 0"

text \<open>The writes of the ordering scenario: (A, y), (B, x), (A, x), in this order.\<close>

definition three_writes :: "(byte, nat, bytes \<times> string \<Rightarrow> bytes) Storage" where
  "three_writes =
     snd (WriteValue addr_A ''x'' (SomeValue (Some 3))
       (snd (WriteValue addr_B ''x'' (SomeValue (Some 2))
         (snd (WriteValue addr_A ''y'' (SomeValue (Some 1)) empty_storage)))))"

text \<open>Two writes, (A, y) and (B, x), and the same two writes the other way round.\<close>

definition two_writes :: "(byte, nat, bytes \<times> string \<Rightarrow> bytes) Storage" where
  "two_writes =
     snd (WriteValue addr_B ''x'' (SomeValue (Some 2))
       (snd (WriteValue addr_A ''y'' (SomeValue (Some 1)) empty_storage)))"

definition two_writes_reversed :: "(byte, nat, bytes \<times> string \<Rightarrow> bytes) Storage" where
  "two_writes_reversed =
     snd (WriteValue addr_A ''y'' (SomeValue (Some 1))
       (snd (WriteValue addr_B ''x'' (SomeValue (Some 2)) empty_storage)))"

text \<open>One key with a value written and a contract update recorded.\<close>

definition written_and_updated :: "(byte, nat, bytes \<times> string \<Rightarrow> bytes) Storage" where
  "written_and_updated =
     recordContractUpdate addr_A ''x'' (Some 2)
       (snd (WriteValue addr_A ''x'' (SomeValue (Some 1)) empty_storage))"

text \<open>The seeded storage after the key \<open>k\<close> was read, and after it was then deleted.\<close>

definition read_k :: "(byte, nat, bytes \<times> string \<Rightarrow> bytes) Storage" where
  "read_k = snd (ReadValue memory_externals addr_A ''k'' seeded_storage)"

definition read_then_deleted :: "(byte, nat, bytes \<times> string \<Rightarrow> bytes) Storage" where
  "read_then_deleted = snd (WriteValue addr_A ''k'' NilValue read_k)"

text \<open>Three writes to account A, the second to the key that the ledger refuses.\<close>

definition locked_writes :: "(byte, nat, bytes \<times> string \<Rightarrow> bytes) Storage" where
  "locked_writes =
     snd (WriteValue addr_A ''z'' (SomeValue (Some 3))
       (snd (WriteValue addr_A ''locked'' (SomeValue (Some 2))
         (snd (WriteValue addr_A ''a'' (SomeValue (Some 1)) empty_storage)))))"

text \<open>Three writes to account A, the second of the value that cannot be made storable.\<close>

definition unstorable_writes :: "(byte, nat, bytes \<times> string \<Rightarrow> bytes) Storage" where
  "unstorable_writes =
     snd (WriteValue addr_A ''c'' (SomeValue (Some 3))
       (snd (WriteValue addr_A ''b'' (SomeValue (Some 255))
         (snd (WriteValue addr_A ''a'' (SomeValue (Some 1)) empty_storage)))))"

text \<open>A deletion of the key that the ledger refuses.\<close>

definition locked_deletion :: "(byte, nat, bytes \<times> string \<Rightarrow> bytes) Storage" where
  "locked_deletion = snd (WriteValue addr_A ''locked'' NilValue empty_storage)"

section \<open>Properties\<close>

subsection \<open>Sorting, visiting a map\<close>

lemma mset_sift: "mset (sift lt x ys) = add_mset x (mset ys)"
  by (induction ys) auto

lemma mset_insertion_loop: "mset (insertion_loop lt left xs) = mset left + mset xs"
  by (induction xs arbitrary: left) (auto simp: mset_sift)

lemma mset_insertionSort: "mset (insertionSort lt xs) = mset xs"
  by (simp add: insertionSort_def mset_insertion_loop)

lemma permutes_memory_externals: "permutes memory_externals"
  by (simp add: permutes_def memory_externals_def mset_insertionSort)

lemma range_map_visits:
  "visits order m \<Longrightarrow> range_map m order = map (\<lambda>k. (k, the (m k))) order"
  unfolding visits_def range_map_def
proof (induction order arbitrary: m)
  case Nil
  then show ?case by (simp add: List.map_filter_simps)
next
  case (Cons k ks)
  from Cons.prems obtain v where v: "m k = Some v" by auto
  have sub: "set ks \<subseteq> dom m" using Cons.prems by auto
  have "List.map_filter (\<lambda>k. map_option (Pair k) (m k)) ks = map (\<lambda>k. (k, the (m k))) ks"
    using sub by (induction ks) (auto simp: List.map_filter_simps)
  then show ?case using v by (simp add: List.map_filter_simps)
qed

lemma map_fst_range_map: "visits order m \<Longrightarrow> map fst (range_map m order) = order"
  by (simp add: range_map_visits comp_def)

lemma set_range_map: "visits order m \<Longrightarrow> set (range_map m order) = {(k, v). m k = Some v}"
  by (auto simp: range_map_visits) (auto simp: visits_def)

lemma keys_of_entries:
  assumes "visits order_deltas (deltas s)" and "visits order_updates (contractUpdates s)"
  shows "mset (map fst (accountStorageEntries order_deltas order_updates s)) =
           mset_set (dom (deltas s)) + mset_set (dom (contractUpdates s))"
proof -
  have "mset order_deltas = mset_set (dom (deltas s))"
    using assms(1) by (metis visits_def mset_set_set)
  moreover have "mset order_updates = mset_set (dom (contractUpdates s))"
    using assms(2) by (metis visits_def mset_set_set)
  ultimately show ?thesis
    using assms by (simp add: accountStorageEntries_def map_fst_range_map)
qed

lemma keys_of_sorted:
  assumes "permutes ext"
  shows "mset (map fst (sort_Slice ext lt xs)) = mset (map fst xs)"
  using assms by (metis permutes_def mset_map)

lemma encode_entry_frame:
  "encode_entry ext entry s = (r, s') \<Longrightarrow>
     deltas s' = deltas s \<and> cache s' = cache s \<and> contractUpdates s' = contractUpdates s
     \<and> calls s' = calls s"
  by (auto simp: encode_entry_def Let_def split: option.splits prod.splits sum.splits)

lemma encode_entry_Inr:
  "encode_entry ext entry s = (Inr encoded, s') \<Longrightarrow>
     (case snd entry of None \<Rightarrow> encoded = []
      | Some value \<Rightarrow> encoding ext value (Address (fst entry)) encoded)"
  unfolding encode_entry_def encoding_def Let_def
  by (auto split: option.splits prod.splits sum.splits) (metis fst_conv)

lemma write_entry_frame:
  "write_entry ext entry s = (r, s') \<Longrightarrow>
     deltas s' = deltas s \<and> cache s' = cache s \<and> contractUpdates s' = contractUpdates s"
  by (auto simp: write_entry_def called_def split: prod.splits sum.splits dest: encode_entry_frame)

lemma write_entry_None:
  assumes "write_entry ext entry s = (None, s')"
  shows "\<exists>c. calls s' = calls s @ [c] \<and> written_as ext entry c"
proof -
  obtain r s1 where e: "encode_entry ext entry s = (r, s1)" by (cases "encode_entry ext entry s")
  from assms e obtain encoded where r: "r = Inr encoded"
    by (cases r) (auto simp: write_entry_def)
  from assms e r have c: "calls s' = calls s1 @ [SetValueCall (Address (fst entry)) (Key (fst entry)) encoded]"
    by (auto simp: write_entry_def called_def split: prod.splits)
  have "calls s1 = calls s" using e encode_entry_frame by blast
  moreover have "written_as ext entry (SetValueCall (Address (fst entry)) (Key (fst entry)) encoded)"
    using encode_entry_Inr [OF e [unfolded r]] by (auto simp: written_as_def split: option.splits)
  ultimately show ?thesis using c by simp
qed

lemma write_entry_Some:
  assumes "write_entry ext entry s = (Some err, s')"
  shows "calls s' = calls s \<or>
         (\<exists>encoded. calls s' = calls s @ [SetValueCall (Address (fst entry)) (Key (fst entry)) encoded])"
proof -
  obtain r s1 where e: "encode_entry ext entry s = (r, s1)" by (cases "encode_entry ext entry s")
  have s1: "calls s1 = calls s" using e encode_entry_frame by blast
  show ?thesis
  proof (cases r)
    case (Inl a)
    with assms e s1 show ?thesis by (auto simp: write_entry_def)
  next
    case (Inr encoded)
    with assms e s1 show ?thesis by (auto simp: write_entry_def called_def split: prod.splits)
  qed
qed

lemma written_as_key: "written_as ext entry c \<Longrightarrow> written_key c = Some (fst entry)"
  by (auto simp: written_as_def split: option.splits)

lemma written_keys_append: "written_keys (xs @ ys) = written_keys xs @ written_keys ys"
  by (simp add: written_keys_def List.map_filter_def)

lemma written_keys_all2: "list_all2 (written_as ext) es ws \<Longrightarrow> written_keys ws = map fst es"
  by (induction rule: list_all2_induct) (auto simp: written_keys_def List.map_filter_simps written_as_key)

lemma write_entries_None:
  "write_entries ext entries s = (None, s') \<Longrightarrow>
     \<exists>ws. calls s' = calls s @ ws \<and> list_all2 (written_as ext) entries ws"
proof (induction entries arbitrary: s)
  case Nil
  then show ?case by simp
next
  case (Cons e es)
  obtain r1 s1 where w: "write_entry ext e s = (r1, s1)" by (cases "write_entry ext e s")
  with Cons.prems have r1: "r1 = None" and rest: "write_entries ext es s1 = (None, s')"
    by (cases r1; simp)+
  from write_entry_None [OF w [unfolded r1]] obtain c
    where c: "calls s1 = calls s @ [c]" "written_as ext e c" by blast
  from Cons.IH [OF rest] obtain ws
    where ws: "calls s' = calls s1 @ ws" "list_all2 (written_as ext) es ws" by blast
  have "calls s' = calls s @ (c # ws)" using c ws by simp
  moreover have "list_all2 (written_as ext) (e # es) (c # ws)" using c ws by simp
  ultimately show ?case by blast
qed

lemma write_entries_any:
  "write_entries ext entries s = (r, s') \<Longrightarrow>
     \<exists>ws. calls s' = calls s @ ws \<and> mset (written_keys ws) \<subseteq># mset (map fst entries)
       \<and> FastCommitCall \<notin> set ws"
proof (induction entries arbitrary: s)
  case Nil
  then show ?case by (simp add: written_keys_def List.map_filter_simps)
next
  case (Cons e es)
  obtain r1 s1 where w: "write_entry ext e s = (r1, s1)" by (cases "write_entry ext e s")
  show ?case
  proof (cases r1)
    case None
    with Cons.prems w have rest: "write_entries ext es s1 = (r, s')" by simp
    from write_entry_None [OF w [unfolded None]] obtain c
      where c: "calls s1 = calls s @ [c]" "written_as ext e c" by blast
    from Cons.IH [OF rest] obtain ws
      where ws: "calls s' = calls s1 @ ws" "mset (written_keys ws) \<subseteq># mset (map fst es)"
        "FastCommitCall \<notin> set ws" by blast
    have k: "written_keys (c # ws) = fst e # written_keys ws"
      using written_as_key [OF c(2)] by (simp add: written_keys_def List.map_filter_simps)
    have "c \<noteq> FastCommitCall" using written_as_key [OF c(2)] by auto
    then have "calls s' = calls s @ (c # ws) \<and> mset (written_keys (c # ws)) \<subseteq># mset (map fst (e # es))
       \<and> FastCommitCall \<notin> set (c # ws)"
      using c ws k by simp
    then show ?thesis by blast
  next
    case (Some err)
    with Cons.prems w have s': "s' = s1" by simp
    from write_entry_Some [OF w [unfolded Some]] show ?thesis
    proof
      assume "calls s1 = calls s"
      then have "calls s' = calls s @ [] \<and> mset (written_keys []) \<subseteq># mset (map fst (e # es))
        \<and> FastCommitCall \<notin> set []"
        using s' by (simp add: written_keys_def List.map_filter_simps)
      then show ?thesis by blast
    next
      assume "\<exists>encoded. calls s1 = calls s @ [SetValueCall (Address (fst e)) (Key (fst e)) encoded]"
      then obtain encoded where
        "calls s1 = calls s @ [SetValueCall (Address (fst e)) (Key (fst e)) encoded]" by blast
      then have "calls s' = calls s @ [SetValueCall (Address (fst e)) (Key (fst e)) encoded]
        \<and> mset (written_keys [SetValueCall (Address (fst e)) (Key (fst e)) encoded]) \<subseteq># mset (map fst (e # es))
        \<and> FastCommitCall \<notin> set [SetValueCall (Address (fst e)) (Key (fst e)) encoded]"
        using s' by (simp add: written_keys_def List.map_filter_simps)
      then show ?thesis by blast
    qed
  qed
qed

lemma write_entries_frame:
  "write_entries ext entries s = (r, s') \<Longrightarrow>
     deltas s' = deltas s \<and> cache s' = cache s \<and> contractUpdates s' = contractUpdates s"
proof (induction entries arbitrary: s)
  case Nil
  then show ?case by simp
next
  case (Cons e es)
  obtain r1 s1 where w: "write_entry ext e s = (r1, s1)" by (cases "write_entry ext e s")
  show ?case
  proof (cases r1)
    case None
    with Cons w show ?thesis by (auto dest!: write_entry_frame)
  next
    case (Some err)
    with Cons.prems w show ?thesis by (auto dest!: write_entry_frame)
  qed
qed

lemma Commit_frame:
  "Commit ext order_deltas order_updates s = (r, s') \<Longrightarrow>
     deltas s' = deltas s \<and> cache s' = cache s \<and> contractUpdates s' = contractUpdates s"
  by (auto simp: Commit_def called_def split: prod.splits option.splits dest!: write_entries_frame)

text \<open>The calls of a whole \<open>Commit\<close>: the writes, then the flush if no write failed.\<close>

lemma Commit_calls_None:
  assumes "Commit ext order_deltas order_updates s = (None, s')"
  shows "\<exists>ws. calls s' = calls s @ ws @ [FastCommitCall] \<and>
     list_all2 (written_as ext)
       (sort_Slice ext less_entry (accountStorageEntries order_deltas order_updates s)) ws"
proof -
  let ?es = "sort_Slice ext less_entry (accountStorageEntries order_deltas order_updates s)"
  obtain r1 s1 where w: "write_entries ext ?es s = (r1, s1)" by (cases "write_entries ext ?es s")
  with assms have r1: "r1 = None" by (cases r1) (auto simp: Commit_def)
  from write_entries_None [OF w [unfolded r1]] obtain ws
    where ws: "calls s1 = calls s @ ws" "list_all2 (written_as ext) ?es ws" by blast
  from assms w r1 have "calls s' = calls s1 @ [FastCommitCall]"
    by (auto simp: Commit_def called_def split: prod.splits)
  with ws show ?thesis by auto
qed

lemma Commit_calls_any:
  assumes "Commit ext order_deltas order_updates s = (r, s')"
  shows "\<exists>cs. calls s' = calls s @ cs \<and>
     mset (written_keys cs) \<subseteq>#
       mset (map fst (sort_Slice ext less_entry (accountStorageEntries order_deltas order_updates s)))"
proof -
  let ?es = "sort_Slice ext less_entry (accountStorageEntries order_deltas order_updates s)"
  obtain r1 s1 where w: "write_entries ext ?es s = (r1, s1)" by (cases "write_entries ext ?es s")
  from write_entries_any [OF w] obtain ws
    where ws: "calls s1 = calls s @ ws" "mset (written_keys ws) \<subseteq># mset (map fst ?es)" by blast
  show ?thesis
  proof (cases r1)
    case None
    with assms w have "calls s' = calls s1 @ [FastCommitCall]"
      by (auto simp: Commit_def called_def split: prod.splits)
    then have "calls s' = calls s @ (ws @ [FastCommitCall])" using ws by simp
    moreover have "written_keys (ws @ [FastCommitCall]) = written_keys ws"
      by (simp add: written_keys_def List.map_filter_def)
    ultimately show ?thesis using ws(2) by metis
  next
    case (Some err)
    with assms w have "s' = s1" by (simp add: Commit_def)
    with ws show ?thesis by blast
  qed
qed

subsection \<open>Running the examples\<close>

lemmas run_defs =
  Commit_def calls_of_Commit_def accountStorageEntries_def range_map_def List.map_filter_def
  WriteValue_def recordContractUpdate_def NewStorage_def empty_storage_def memory_externals_def
  insertionSort_def less_entry_def bytes_Compare_def addr_A_def addr_B_def write_entry_def
  encode_entry_def called_def visits_def

lemmas state_defs = read_k_def read_then_deleted_def locked_writes_def unstorable_writes_def
  locked_deletion_def
  seeded_storage_def
  ReadValue_def ValueExists_def

lemma calls_of_Commit_eq:
  "Commit ext order_deltas order_updates s = (r, s') \<Longrightarrow> calls s' = calls s @ cs \<Longrightarrow>
     calls_of_Commit ext order_deltas order_updates s = cs"
  by (simp add: calls_of_Commit_def)

subsection \<open>The order of the writes of a Commit\<close>

text \<open>
  The function given to \<open>sort.Slice\<close> answers true as soon as the key of the first entry is
  smaller, also when its address is larger. It is no order: of the entries (B, x) and (A, y)
  each is smaller than the other.
\<close>

lemma less_entry_both_ways:
  "less_entry (\<lparr>Address = addr_B, Key = ''x''\<rparr>, v) (\<lparr>Address = addr_A, Key = ''y''\<rparr>, w)
   \<and> less_entry (\<lparr>Address = addr_A, Key = ''y''\<rparr>, w) (\<lparr>Address = addr_B, Key = ''x''\<rparr>, v)"
  by (simp add: less_entry_def bytes_Compare_def addr_A_def addr_B_def)

text \<open>
  C1. The claim: a Commit emits its writes sorted by address, then by key; the writes of
  (A, y), (B, x), (A, x) are emitted as (A, x), (A, y), (B, x). Evaluated on these three
  writes, with the map visited in the order of the writes, Commit emits (A, x), (B, x),
  (A, y): an entry of the larger address B comes before an entry of the smaller address A.
\<close>

theorem Commit_three_writes_order:
  "visits [\<lparr>Address = addr_A, Key = ''y''\<rparr>, \<lparr>Address = addr_B, Key = ''x''\<rparr>,
           \<lparr>Address = addr_A, Key = ''x''\<rparr>] (deltas three_writes)
   \<and> visits [] (contractUpdates three_writes)
   \<and> calls_of_Commit memory_externals
        [\<lparr>Address = addr_A, Key = ''y''\<rparr>, \<lparr>Address = addr_B, Key = ''x''\<rparr>,
         \<lparr>Address = addr_A, Key = ''x''\<rparr>] [] three_writes =
      [SetValueCall addr_A ''x'' [3], SetValueCall addr_B ''x'' [2],
       SetValueCall addr_A ''y'' [1], FastCommitCall]"
  by (simp add: run_defs three_writes_def insert_commute)

text \<open>
  C2. The claim: the calls of a Commit are a function of the contents of the two maps
  alone. Evaluated on two storages with equal maps, reached by the same two writes in
  either order, each map visited in the order of its writes: the two Commits emit the
  two writes in opposite orders.
\<close>

theorem Commit_depends_on_visit_order:
  "deltas two_writes = deltas two_writes_reversed
   \<and> contractUpdates two_writes = contractUpdates two_writes_reversed
   \<and> visits [\<lparr>Address = addr_A, Key = ''y''\<rparr>, \<lparr>Address = addr_B, Key = ''x''\<rparr>] (deltas two_writes)
   \<and> visits [\<lparr>Address = addr_B, Key = ''x''\<rparr>, \<lparr>Address = addr_A, Key = ''y''\<rparr>]
        (deltas two_writes_reversed)
   \<and> calls_of_Commit memory_externals
        [\<lparr>Address = addr_A, Key = ''y''\<rparr>, \<lparr>Address = addr_B, Key = ''x''\<rparr>] [] two_writes =
      [SetValueCall addr_B ''x'' [2], SetValueCall addr_A ''y'' [1], FastCommitCall]
   \<and> calls_of_Commit memory_externals
        [\<lparr>Address = addr_B, Key = ''x''\<rparr>, \<lparr>Address = addr_A, Key = ''y''\<rparr>] [] two_writes_reversed =
      [SetValueCall addr_A ''y'' [1], SetValueCall addr_B ''x'' [2], FastCommitCall]"
  by (auto simp add: run_defs two_writes_def two_writes_reversed_def fun_upd_twist)

subsection \<open>How often a Commit writes a key\<close>

text \<open>
  C3, as stated, fails: a key with an entry in \<open>deltas\<close> and an entry in
  \<open>contractUpdates\<close> is written twice by one Commit, once for each entry.
\<close>

theorem Commit_writes_key_twice:
  "visits [\<lparr>Address = addr_A, Key = ''x''\<rparr>] (deltas written_and_updated)
   \<and> visits [\<lparr>Address = addr_A, Key = ''x''\<rparr>] (contractUpdates written_and_updated)
   \<and> calls_of_Commit memory_externals
        [\<lparr>Address = addr_A, Key = ''x''\<rparr>] [\<lparr>Address = addr_A, Key = ''x''\<rparr>] written_and_updated =
      [SetValueCall addr_A ''x'' [1], SetValueCall addr_A ''x'' [2], FastCommitCall]
   \<and> count_list (written_keys (calls_of_Commit memory_externals
        [\<lparr>Address = addr_A, Key = ''x''\<rparr>] [\<lparr>Address = addr_A, Key = ''x''\<rparr>] written_and_updated))
        \<lparr>Address = addr_A, Key = ''x''\<rparr> = 2"
  by (simp add: run_defs written_and_updated_def written_keys_def)

text \<open>
  C3, amended. One Commit, whether it returns an error or not, calls \<open>SetValue\<close> at
  most once for a key that does not have an entry in both \<open>deltas\<close> and
  \<open>contractUpdates\<close>.
\<close>

theorem Commit_writes_key_once:
  assumes "permutes ext"
    and "visits order_deltas (deltas s)" and "visits order_updates (contractUpdates s)"
    and "\<not> (k \<in> dom (deltas s) \<and> k \<in> dom (contractUpdates s))"
  shows "count_list (written_keys (calls_of_Commit ext order_deltas order_updates s)) k \<le> 1"
proof -
  obtain r s' where c: "Commit ext order_deltas order_updates s = (r, s')"
    by (cases "Commit ext order_deltas order_updates s")
  let ?es = "accountStorageEntries order_deltas order_updates s"
  from Commit_calls_any [OF c] obtain cs where cs: "calls s' = calls s @ cs"
    "mset (written_keys cs) \<subseteq># mset (map fst (sort_Slice ext less_entry ?es))" by blast
  have fin: "finite (dom (deltas s))" "finite (dom (contractUpdates s))"
    using assms(2,3) by (metis visits_def List.finite_set)+
  have "count (mset (written_keys cs)) k \<le> count (mset (map fst (sort_Slice ext less_entry ?es))) k"
    using cs(2) by (rule mset_subset_eq_count)
  also have "\<dots> = count (mset_set (dom (deltas s)) + mset_set (dom (contractUpdates s))) k"
    using keys_of_sorted [OF assms(1)] keys_of_entries [OF assms(2,3)] by metis
  also have "\<dots> \<le> 1"
  proof (cases "k \<in> dom (deltas s)")
    case True
    with assms(4) have "k \<notin> dom (contractUpdates s)" by simp
    then show ?thesis using fin by (simp add: count_mset_set')
  next
    case False
    then show ?thesis using fin by (simp add: count_mset_set')
  qed
  finally have "count_list (written_keys cs) k \<le> 1" by (simp add: count_mset)
  then show ?thesis using calls_of_Commit_eq [OF c cs(1)] by simp
qed

theorem Commit_writes_key_once_witness:
  "permutes memory_externals
   \<and> visits [\<lparr>Address = addr_A, Key = ''y''\<rparr>, \<lparr>Address = addr_B, Key = ''x''\<rparr>] (deltas two_writes)
   \<and> visits [] (contractUpdates two_writes)
   \<and> \<not> (\<lparr>Address = addr_A, Key = ''y''\<rparr> \<in> dom (deltas two_writes)
        \<and> \<lparr>Address = addr_A, Key = ''y''\<rparr> \<in> dom (contractUpdates two_writes))
   \<and> count_list (written_keys (calls_of_Commit memory_externals
        [\<lparr>Address = addr_A, Key = ''y''\<rparr>, \<lparr>Address = addr_B, Key = ''x''\<rparr>] [] two_writes))
        \<lparr>Address = addr_A, Key = ''y''\<rparr> \<le> 1"
proof -
  have v1: "visits [\<lparr>Address = addr_A, Key = ''y''\<rparr>, \<lparr>Address = addr_B, Key = ''x''\<rparr>] (deltas two_writes)"
    by (auto simp add: run_defs two_writes_def)
  have v2: "visits [] (contractUpdates two_writes)"
    by (simp add: run_defs two_writes_def)
  have n: "\<not> (\<lparr>Address = addr_A, Key = ''y''\<rparr> \<in> dom (deltas two_writes)
        \<and> \<lparr>Address = addr_A, Key = ''y''\<rparr> \<in> dom (contractUpdates two_writes))"
    by (simp add: run_defs two_writes_def)
  from Commit_writes_key_once [OF permutes_memory_externals v1 v2 n]
  show ?thesis using permutes_memory_externals v1 v2 n by blast
qed

subsection \<open>Commit and the three maps\<close>

text \<open>
  C10. The claim: a Commit leaves the three maps as they were, so a second Commit on the
  same storage emits the same sequence of writes again. Evaluated on two writes: the first
  Commit returns no error and leaves \<open>deltas\<close> as it was, the second Commit visits the
  map anew, and with the map visited in the other order it emits the two writes in the
  opposite order to the first. The sort does not make the order of the visit irrelevant,
  its function \<open>less\<close> being no order.
\<close>

theorem Commit_twice_differs:
  "fst (Commit memory_externals
      [\<lparr>Address = addr_A, Key = ''y''\<rparr>, \<lparr>Address = addr_B, Key = ''x''\<rparr>] [] two_writes) = None
   \<and> visits [\<lparr>Address = addr_B, Key = ''x''\<rparr>, \<lparr>Address = addr_A, Key = ''y''\<rparr>]
       (deltas (snd (Commit memory_externals
          [\<lparr>Address = addr_A, Key = ''y''\<rparr>, \<lparr>Address = addr_B, Key = ''x''\<rparr>] [] two_writes)))
   \<and> calls_of_Commit memory_externals
        [\<lparr>Address = addr_A, Key = ''y''\<rparr>, \<lparr>Address = addr_B, Key = ''x''\<rparr>] [] two_writes =
      [SetValueCall addr_B ''x'' [2], SetValueCall addr_A ''y'' [1], FastCommitCall]
   \<and> calls_of_Commit memory_externals
        [\<lparr>Address = addr_B, Key = ''x''\<rparr>, \<lparr>Address = addr_A, Key = ''y''\<rparr>] []
        (snd (Commit memory_externals
          [\<lparr>Address = addr_A, Key = ''y''\<rparr>, \<lparr>Address = addr_B, Key = ''x''\<rparr>] [] two_writes)) =
      [SetValueCall addr_A ''y'' [1], SetValueCall addr_B ''x'' [2], FastCommitCall]"
  by (simp add: run_defs two_writes_def insert_commute)

lemma written_keys_of_Commit:
  assumes "permutes ext" and "Commit ext order_deltas order_updates s = (None, s')"
    and "visits order_deltas (deltas s)" and "visits order_updates (contractUpdates s)"
  shows "mset (written_keys (calls_of_Commit ext order_deltas order_updates s)) =
           mset_set (dom (deltas s)) + mset_set (dom (contractUpdates s))"
proof -
  let ?es = "sort_Slice ext less_entry (accountStorageEntries order_deltas order_updates s)"
  from Commit_calls_None [OF assms(2)] obtain ws
    where ws: "calls s' = calls s @ ws @ [FastCommitCall]" "list_all2 (written_as ext) ?es ws"
    by blast
  have "calls_of_Commit ext order_deltas order_updates s = ws @ [FastCommitCall]"
    using calls_of_Commit_eq [OF assms(2) ws(1)] .
  then have "written_keys (calls_of_Commit ext order_deltas order_updates s) = map fst ?es"
    using written_keys_all2 [OF ws(2)]
    by (simp add: written_keys_append) (simp add: written_keys_def List.map_filter_simps)
  then show ?thesis
    using keys_of_sorted [OF assms(1)] keys_of_entries [OF assms(3,4)] by metis
qed

text \<open>
  What does hold of two Commits in a row: a Commit leaves \<open>deltas\<close>, \<open>cache\<close> and
  \<open>contractUpdates\<close> as they were, whether it returns an error or not; and when a Commit
  and a second Commit after it both return no error, the second calls \<open>SetValue\<close> for
  the same storage keys as the first, each key as often.
\<close>

theorem Commit_keeps_buffers:
  assumes "permutes ext"
    and "Commit ext order_deltas order_updates s = (r1, s1)"
    and "Commit ext order_deltas2 order_updates2 s1 = (r2, s2)"
    and "visits order_deltas (deltas s)" and "visits order_updates (contractUpdates s)"
    and "visits order_deltas2 (deltas s1)" and "visits order_updates2 (contractUpdates s1)"
  shows "deltas s1 = deltas s \<and> cache s1 = cache s \<and> contractUpdates s1 = contractUpdates s
    \<and> (r1 = None \<and> r2 = None \<longrightarrow>
         mset (written_keys (calls_of_Commit ext order_deltas2 order_updates2 s1)) =
         mset (written_keys (calls_of_Commit ext order_deltas order_updates s)))"
proof -
  have frame: "deltas s1 = deltas s \<and> cache s1 = cache s \<and> contractUpdates s1 = contractUpdates s"
    using Commit_frame [OF assms(2)] .
  have "mset (written_keys (calls_of_Commit ext order_deltas2 order_updates2 s1)) =
         mset (written_keys (calls_of_Commit ext order_deltas order_updates s))"
    if "r1 = None" "r2 = None"
    using written_keys_of_Commit [OF assms(1) assms(2) [unfolded that] assms(4,5)]
      written_keys_of_Commit [OF assms(1) assms(3) [unfolded that] assms(6,7)] frame
    by simp
  with frame show ?thesis by blast
qed

theorem Commit_keeps_buffers_witness:
  "permutes memory_externals
   \<and> visits [\<lparr>Address = addr_A, Key = ''y''\<rparr>, \<lparr>Address = addr_B, Key = ''x''\<rparr>] (deltas two_writes)
   \<and> visits [] (contractUpdates two_writes)
   \<and> visits [\<lparr>Address = addr_B, Key = ''x''\<rparr>, \<lparr>Address = addr_A, Key = ''y''\<rparr>]
       (deltas (snd (Commit memory_externals
          [\<lparr>Address = addr_A, Key = ''y''\<rparr>, \<lparr>Address = addr_B, Key = ''x''\<rparr>] [] two_writes)))
   \<and> fst (Commit memory_externals
        [\<lparr>Address = addr_A, Key = ''y''\<rparr>, \<lparr>Address = addr_B, Key = ''x''\<rparr>] [] two_writes) = None
   \<and> deltas (snd (Commit memory_externals
        [\<lparr>Address = addr_A, Key = ''y''\<rparr>, \<lparr>Address = addr_B, Key = ''x''\<rparr>] [] two_writes)) =
      deltas two_writes
   \<and> mset (written_keys (calls_of_Commit memory_externals
        [\<lparr>Address = addr_B, Key = ''x''\<rparr>, \<lparr>Address = addr_A, Key = ''y''\<rparr>] []
        (snd (Commit memory_externals
          [\<lparr>Address = addr_A, Key = ''y''\<rparr>, \<lparr>Address = addr_B, Key = ''x''\<rparr>] [] two_writes)))) =
     mset (written_keys (calls_of_Commit memory_externals
        [\<lparr>Address = addr_A, Key = ''y''\<rparr>, \<lparr>Address = addr_B, Key = ''x''\<rparr>] [] two_writes))"
proof -
  let ?o1 = "[\<lparr>Address = addr_A, Key = ''y''\<rparr>, \<lparr>Address = addr_B, Key = ''x''\<rparr>]"
  let ?o2 = "[\<lparr>Address = addr_B, Key = ''x''\<rparr>, \<lparr>Address = addr_A, Key = ''y''\<rparr>]"
  let ?s1 = "snd (Commit memory_externals ?o1 [] two_writes)"
  let ?s2 = "snd (Commit memory_externals ?o2 [] ?s1)"
  have c1: "Commit memory_externals ?o1 [] two_writes = (None, ?s1)"
    by (simp add: run_defs two_writes_def)
  have c2: "Commit memory_externals ?o2 [] ?s1 = (None, ?s2)"
    by (simp add: run_defs two_writes_def)
  have v1: "visits ?o1 (deltas two_writes)" by (simp add: run_defs two_writes_def insert_commute)
  have v2: "visits [] (contractUpdates two_writes)" by (simp add: run_defs two_writes_def)
  have v3: "visits ?o2 (deltas ?s1)" by (simp add: run_defs two_writes_def insert_commute)
  have v4: "visits [] (contractUpdates ?s1)" by (simp add: run_defs two_writes_def)
  have f1: "fst (Commit memory_externals ?o1 [] two_writes) = None"
    by (simp add: run_defs two_writes_def)
  from Commit_keeps_buffers [OF permutes_memory_externals c1 c2 v1 v2 v3 v4]
  show ?thesis using permutes_memory_externals f1 v1 v2 v3 by blast
qed

subsection \<open>WriteValue and ReadValue\<close>

text \<open>
  C9. \<open>WriteValue\<close> with a \<open>SomeValue\<close> or with \<open>NilValue\<close> returns normally and
  records the written value in \<open>deltas\<close>, \<open>nil\<close> for \<open>NilValue\<close>; it does not reach
  the panic of the default branch.
\<close>

theorem WriteValue_returns:
  assumes "(\<exists>x. value = SomeValue x) \<or> value = NilValue"
  shows "WriteValue address key value s =
           (Inr (), s\<lparr>deltas := (deltas s)(\<lparr>Address = address, Key = key\<rparr> \<mapsto>
              (case value of SomeValue y \<Rightarrow> y | NilValue \<Rightarrow> None))\<rparr>)
         \<and> fst (WriteValue address key value s) \<noteq> Inl UnreachableError"
  using assms by (auto simp: WriteValue_def)

theorem WriteValue_returns_witness:
  "WriteValue addr_A ''x'' (SomeValue (Some 3)) empty_storage =
     (Inr (), empty_storage\<lparr>deltas := (deltas empty_storage)(\<lparr>Address = addr_A, Key = ''x''\<rparr> \<mapsto> Some 3)\<rparr>)
   \<and> WriteValue addr_A ''x'' NilValue empty_storage =
     (Inr (), empty_storage\<lparr>deltas := (deltas empty_storage)(\<lparr>Address = addr_A, Key = ''x''\<rparr> \<mapsto> None)\<rparr>)"
  using WriteValue_returns [of "SomeValue (Some 3)" addr_A "''x''" empty_storage]
    WriteValue_returns [of NilValue addr_A "''x''" empty_storage]
  by simp

lemma WriteValues_deltas:
  assumes "\<forall>w \<in> set values. w = NilValue \<or> (\<exists>v. w = SomeValue (Some v))"
  shows "\<exists>s'. WriteValues address key values s = (Inr (), s')
     \<and> Ledger s' = Ledger s \<and> calls s' = calls s
     \<and> (values \<noteq> [] \<longrightarrow>
          deltas s' \<lparr>Address = address, Key = key\<rparr> =
            Some (case last values of SomeValue y \<Rightarrow> y | NilValue \<Rightarrow> None))"
  using assms
proof (induction "values" arbitrary: s)
  case Nil
  then show ?case by simp
next
  case (Cons w ws)
  let ?k = "\<lparr>Address = address, Key = key\<rparr>"
  let ?s1 = "s\<lparr>deltas := (deltas s)(?k \<mapsto> (case w of SomeValue y \<Rightarrow> y | NilValue \<Rightarrow> None))\<rparr>"
  have w: "WriteValue address key w s = (Inr (), ?s1)"
    using Cons.prems by (auto simp: WriteValue_def)
  from Cons.IH [of ?s1] Cons.prems obtain s' where
    s': "WriteValues address key ws ?s1 = (Inr (), s')" "Ledger s' = Ledger ?s1" "calls s' = calls ?s1"
      "ws \<noteq> [] \<longrightarrow> deltas s' ?k = Some (case last ws of SomeValue y \<Rightarrow> y | NilValue \<Rightarrow> None)"
    by auto
  show ?case
  proof (cases "ws = []")
    case True
    then show ?thesis using w by simp
  next
    case False
    then show ?thesis using w s' by simp
  qed
qed

text \<open>
  C4. After any non-empty sequence of calls of \<open>WriteValue\<close> on one key, each with
  \<open>NilValue\<close> or with a \<open>SomeValue\<close> of a value, \<open>ReadValue\<close> on that key returns
  the value written last, and neither the writes nor the read call the ledger: the ledger
  and the calls recorded are those from before the writes, and the read leaves the storage
  as it is. (A \<open>SomeValue\<close> whose field holds \<open>nil\<close> is no value of the interface of the
  claim; it is stored as \<open>nil\<close> and read back as \<open>NilValue\<close>.)
\<close>

theorem ReadValue_after_WriteValues:
  assumes "values \<noteq> []"
    and "\<forall>w \<in> set values. w = NilValue \<or> (\<exists>v. w = SomeValue (Some v))"
  shows "\<exists>s'. WriteValues address key values s = (Inr (), s')
     \<and> ReadValue ext address key s' = (Inr (last values), s')
     \<and> Ledger s' = Ledger s \<and> calls s' = calls s"
proof -
  from WriteValues_deltas [OF assms(2), of address key s] assms(1) obtain s' where
    s': "WriteValues address key values s = (Inr (), s')" "Ledger s' = Ledger s" "calls s' = calls s"
      "deltas s' \<lparr>Address = address, Key = key\<rparr> =
         Some (case last values of SomeValue y \<Rightarrow> y | NilValue \<Rightarrow> None)"
    by auto
  have "last values \<in> set values" using assms(1) by simp
  with assms(2) have "last values = NilValue \<or> (\<exists>v. last values = SomeValue (Some v))" by blast
  then have "ReadValue ext address key s' = (Inr (last values), s')"
    using s'(4) by (auto simp: ReadValue_def)
  with s' show ?thesis by blast
qed

theorem ReadValue_after_WriteValues_witness:
  "WriteValues addr_A ''k'' [SomeValue (Some 1), NilValue, SomeValue (Some 9)] seeded_storage =
     (Inr (), snd (WriteValues addr_A ''k'' [SomeValue (Some 1), NilValue, SomeValue (Some 9)] seeded_storage))
   \<and> ReadValue memory_externals addr_A ''k''
       (snd (WriteValues addr_A ''k'' [SomeValue (Some 1), NilValue, SomeValue (Some 9)] seeded_storage)) =
     (Inr (SomeValue (Some 9)),
      snd (WriteValues addr_A ''k'' [SomeValue (Some 1), NilValue, SomeValue (Some 9)] seeded_storage))
   \<and> calls (snd (WriteValues addr_A ''k'' [SomeValue (Some 1), NilValue, SomeValue (Some 9)] seeded_storage)) = []
   \<and> ReadValue memory_externals addr_A ''k''
       (snd (WriteValues addr_A ''k'' [SomeValue (Some 1), NilValue] seeded_storage)) =
     (Inr NilValue, snd (WriteValues addr_A ''k'' [SomeValue (Some 1), NilValue] seeded_storage))"
proof -
  have a: "[SomeValue (Some 1), NilValue, SomeValue (Some (9::byte))] \<noteq> []" by simp
  have b: "\<forall>w \<in> set [SomeValue (Some 1), NilValue, SomeValue (Some (9::byte))].
             w = NilValue \<or> (\<exists>v. w = SomeValue (Some v))" by simp
  have c: "[SomeValue (Some 1), (NilValue :: byte OptionalValue)] \<noteq> []" by simp
  have d: "\<forall>w \<in> set [SomeValue (Some (1::byte)), NilValue].
             w = NilValue \<or> (\<exists>v. w = SomeValue (Some v))" by simp
  have e: "calls seeded_storage = []" by (simp add: seeded_storage_def NewStorage_def)
  from ReadValue_after_WriteValues [OF a b, of addr_A "''k''" seeded_storage memory_externals]
    ReadValue_after_WriteValues [OF c d, of addr_A "''k''" seeded_storage memory_externals] e
  show ?thesis by auto
qed

subsection \<open>ValueExists\<close>

text \<open>
  C5. \<open>ValueExists\<close> answers from \<open>deltas\<close> when the key is there, whatever the cache
  holds, and then leaves the storage as it is, without a call of the ledger; otherwise from
  the cache when the key is there, again without a call; otherwise it asks the ledger, and
  when the ledger answers that the value does not exist it records \<open>nil\<close> in the cache.
\<close>

theorem ValueExists_looks_up:
  "(\<forall>value. deltas s \<lparr>Address = address, Key = key\<rparr> = Some value \<longrightarrow>
      ValueExists ext address key s = (Inr (value \<noteq> None), s))
   \<and> (\<forall>value. deltas s \<lparr>Address = address, Key = key\<rparr> = None
        \<and> cache s \<lparr>Address = address, Key = key\<rparr> = Some value \<longrightarrow>
      ValueExists ext address key s = (Inr (value \<noteq> None), s))
   \<and> (\<forall>l. deltas s \<lparr>Address = address, Key = key\<rparr> = None
        \<and> cache s \<lparr>Address = address, Key = key\<rparr> = None
        \<and> Ledger_ValueExists ext (Ledger s) address key = (Inr False, l) \<longrightarrow>
      ValueExists ext address key s =
        (Inr False,
         s\<lparr>Ledger := l, calls := calls s @ [ValueExistsCall address key],
           cache := (cache s)(\<lparr>Address = address, Key = key\<rparr> \<mapsto> None)\<rparr>))
   \<and> (\<forall>l. deltas s \<lparr>Address = address, Key = key\<rparr> = None
        \<and> cache s \<lparr>Address = address, Key = key\<rparr> = None
        \<and> Ledger_ValueExists ext (Ledger s) address key = (Inr True, l) \<longrightarrow>
      ValueExists ext address key s =
        (Inr True, s\<lparr>Ledger := l, calls := calls s @ [ValueExistsCall address key]\<rparr>))"
  by (simp add: ValueExists_def called_def)

theorem ValueExists_looks_up_witness:
  "deltas read_then_deleted \<lparr>Address = addr_A, Key = ''k''\<rparr> = Some None
   \<and> cache read_then_deleted \<lparr>Address = addr_A, Key = ''k''\<rparr> = Some (Some 7)
   \<and> ValueExists memory_externals addr_A ''k'' read_then_deleted = (Inr False, read_then_deleted)
   \<and> deltas read_k \<lparr>Address = addr_A, Key = ''k''\<rparr> = None
   \<and> cache read_k \<lparr>Address = addr_A, Key = ''k''\<rparr> = Some (Some 7)
   \<and> ValueExists memory_externals addr_A ''k'' read_k = (Inr True, read_k)
   \<and> deltas empty_storage \<lparr>Address = addr_A, Key = ''k''\<rparr> = None
   \<and> cache empty_storage \<lparr>Address = addr_A, Key = ''k''\<rparr> = None
   \<and> Ledger_ValueExists memory_externals (Ledger empty_storage) addr_A ''k'' =
       (Inr False, Ledger empty_storage)
   \<and> ValueExists memory_externals addr_A ''k'' empty_storage =
       (Inr False,
        empty_storage\<lparr>Ledger := Ledger empty_storage, calls := [ValueExistsCall addr_A ''k''],
          cache := (cache empty_storage)(\<lparr>Address = addr_A, Key = ''k''\<rparr> \<mapsto> None)\<rparr>)"
proof -
  let ?k = "\<lparr>Address = addr_A, Key = ''k''\<rparr>"
  have d1: "deltas read_then_deleted ?k = Some None"
    by (simp add: state_defs run_defs)
  have c1: "cache read_then_deleted ?k = Some (Some 7)"
    by (simp add: state_defs run_defs)
  have d2: "deltas read_k ?k = None" by (simp add: state_defs run_defs)
  have c2: "cache read_k ?k = Some (Some 7)" by (simp add: state_defs run_defs)
  have d3: "deltas empty_storage ?k = None" by (simp add: run_defs)
  have c3: "cache empty_storage ?k = None" by (simp add: run_defs)
  have l3: "Ledger_ValueExists memory_externals (Ledger empty_storage) addr_A ''k'' =
       (Inr False, Ledger empty_storage)" by (simp add: run_defs)
  have e3: "calls empty_storage = []" by (simp add: run_defs)
  note t1 = ValueExists_looks_up [of read_then_deleted addr_A "''k''" memory_externals]
  note t2 = ValueExists_looks_up [of read_k addr_A "''k''" memory_externals]
  note t3 = ValueExists_looks_up [of empty_storage addr_A "''k''" memory_externals]
  have r1: "ValueExists memory_externals addr_A ''k'' read_then_deleted = (Inr False, read_then_deleted)"
    using t1 d1 by simp
  have r2: "ValueExists memory_externals addr_A ''k'' read_k = (Inr True, read_k)"
    using t2 d2 c2 by simp
  have r3: "ValueExists memory_externals addr_A ''k'' empty_storage =
       (Inr False,
        empty_storage\<lparr>Ledger := Ledger empty_storage, calls := [ValueExistsCall addr_A ''k''],
          cache := (cache empty_storage)(\<lparr>Address = addr_A, Key = ''k''\<rparr> \<mapsto> None)\<rparr>)"
    using t3 d3 c3 l3 e3 by simp
  show ?thesis using d1 c1 r1 d2 c2 r2 d3 c3 l3 r3 by blast
qed

subsection \<open>What a Commit writes\<close>

lemma version_byte_memory_externals: "version_byte memory_externals"
  by (simp add: version_byte_def memory_externals_def)

lemma list_all2_member:
  "list_all2 P xs ys \<Longrightarrow> x \<in> set xs \<Longrightarrow> \<exists>y \<in> set ys. P x y"
  by (induction rule: list_all2_induct) auto

lemma set_sorted_entries:
  assumes "permutes ext"
    and "visits order_deltas (deltas s)" and "visits order_updates (contractUpdates s)"
  shows "set (sort_Slice ext lt (accountStorageEntries order_deltas order_updates s)) =
           {(k, v). deltas s k = Some v} \<union> {(k, v). contractUpdates s k = Some v}"
proof -
  have "set (sort_Slice ext lt (accountStorageEntries order_deltas order_updates s)) =
          set (accountStorageEntries order_deltas order_updates s)"
    using assms(1) by (metis permutes_def set_mset_mset)
  then show ?thesis
    using assms(2,3) by (simp add: accountStorageEntries_def set_range_map)
qed

lemma encoding_nonempty: "version_byte ext \<Longrightarrow> encoding ext value address encoded \<Longrightarrow> encoded \<noteq> []"
  by (auto simp: version_byte_def encoding_def)

lemma write_entry_call:
  assumes "write_entry ext entry s = (r, s')"
  shows "r \<noteq> None \<and> calls s' = calls s \<or> (\<exists>c. calls s' = calls s @ [c] \<and> written_as ext entry c)"
proof -
  obtain e s1 where e: "encode_entry ext entry s = (e, s1)" by (cases "encode_entry ext entry s")
  have s1: "calls s1 = calls s" using encode_entry_frame [OF e] by simp
  show ?thesis
  proof (cases e)
    case (Inl err)
    with assms e s1 show ?thesis by (auto simp: write_entry_def)
  next
    case (Inr encoded)
    let ?c = "SetValueCall (Address (fst entry)) (Key (fst entry)) encoded"
    from assms e Inr have "calls s' = calls s1 @ [?c]"
      by (auto simp: write_entry_def called_def split: prod.splits)
    moreover have "written_as ext entry ?c"
      using encode_entry_Inr [OF e [unfolded Inr]] by (auto simp: written_as_def split: option.splits)
    ultimately show ?thesis using s1 by auto
  qed
qed

lemma write_entries_calls:
  "write_entries ext entries s = (r, s') \<Longrightarrow>
     \<exists>ws. calls s' = calls s @ ws \<and> length ws \<le> length entries
       \<and> list_all2 (written_as ext) (take (length ws) entries) ws
       \<and> (r = None \<longrightarrow> length ws = length entries)"
proof (induction entries arbitrary: s)
  case Nil
  then show ?case by simp
next
  case (Cons e es)
  obtain r1 s1 where w: "write_entry ext e s = (r1, s1)" by (cases "write_entry ext e s")
  show ?case
  proof (cases r1)
    case None
    with Cons.prems w have rest: "write_entries ext es s1 = (r, s')" by simp
    from write_entry_call [OF w] None obtain c
      where c: "calls s1 = calls s @ [c]" "written_as ext e c" by auto
    from Cons.IH [OF rest] obtain ws
      where ws: "calls s' = calls s1 @ ws" "length ws \<le> length es"
        "list_all2 (written_as ext) (take (length ws) es) ws"
        "r = None \<longrightarrow> length ws = length es" by blast
    have "calls s' = calls s @ (c # ws) \<and> length (c # ws) \<le> length (e # es)
       \<and> list_all2 (written_as ext) (take (length (c # ws)) (e # es)) (c # ws)
       \<and> (r = None \<longrightarrow> length (c # ws) = length (e # es))"
      using c ws by simp
    then show ?thesis by blast
  next
    case (Some err)
    with Cons.prems w have s': "s' = s1" "r = Some err" by simp_all
    from write_entry_call [OF w] show ?thesis
    proof
      assume "r1 \<noteq> None \<and> calls s1 = calls s"
      then have "calls s' = calls s @ [] \<and> length [] \<le> length (e # es)
        \<and> list_all2 (written_as ext) (take (length []) (e # es)) []
        \<and> (r = None \<longrightarrow> length [] = length (e # es))"
        using s' by simp
      then show ?thesis by blast
    next
      assume "\<exists>c. calls s1 = calls s @ [c] \<and> written_as ext e c"
      then obtain c where "calls s1 = calls s @ [c]" "written_as ext e c" by blast
      then have "calls s' = calls s @ [c] \<and> length [c] \<le> length (e # es)
        \<and> list_all2 (written_as ext) (take (length [c]) (e # es)) [c]
        \<and> (r = None \<longrightarrow> length [c] = length (e # es))"
        using s' by simp
      then show ?thesis by blast
    qed
  qed
qed

lemma Commit_calls:
  assumes "Commit ext order_deltas order_updates s = (r, s')"
  shows "\<exists>ws. (calls s' = calls s @ ws \<and> r \<noteq> None \<or> calls s' = calls s @ ws @ [FastCommitCall]
           \<and> length ws = length (sort_Slice ext less_entry
                (accountStorageEntries order_deltas order_updates s)))
     \<and> list_all2 (written_as ext)
          (take (length ws) (sort_Slice ext less_entry
             (accountStorageEntries order_deltas order_updates s))) ws"
proof -
  let ?es = "sort_Slice ext less_entry (accountStorageEntries order_deltas order_updates s)"
  obtain r1 s1 where w: "write_entries ext ?es s = (r1, s1)" by (cases "write_entries ext ?es s")
  from write_entries_calls [OF w] obtain ws
    where ws: "calls s1 = calls s @ ws" "list_all2 (written_as ext) (take (length ws) ?es) ws"
      "r1 = None \<longrightarrow> length ws = length ?es" by blast
  show ?thesis
  proof (cases r1)
    case None
    with assms w have "calls s' = calls s1 @ [FastCommitCall]"
      by (auto simp: Commit_def called_def split: prod.splits)
    with ws None show ?thesis by auto
  next
    case (Some err)
    with assms w have "s' = s1" "r = Some err" by (simp_all add: Commit_def)
    with ws show ?thesis by auto
  qed
qed

lemma written_as_bytes:
  assumes "version_byte ext" and "written_as ext entry c"
  shows "snd entry = None \<longleftrightarrow> c = SetValueCall (Address (fst entry)) (Key (fst entry)) []"
  using assms encoding_nonempty [OF assms(1)]
  by (auto simp: written_as_def split: option.splits)

text \<open>
  C6. Every \<open>SetValue\<close> that a Commit calls is for an entry of the sorted slice, the
  calls following the order of the slice, and it has no bytes exactly when the value of the
  entry is \<open>nil\<close>; otherwise its bytes are those that the codec gives for the value. When
  the Commit returns no error, every entry of \<open>deltas\<close> and of \<open>contractUpdates\<close> has
  been written so: with no bytes if its value is \<open>nil\<close>, else with the bytes of its value,
  which are not empty, the codec being one that starts every encoding with its version byte.
\<close>

theorem Commit_writes_every_entry:
  assumes "permutes ext" and "version_byte ext"
    and "visits order_deltas (deltas s)" and "visits order_updates (contractUpdates s)"
  shows "(\<exists>ws. (calls_of_Commit ext order_deltas order_updates s = ws
             \<or> calls_of_Commit ext order_deltas order_updates s = ws @ [FastCommitCall])
          \<and> list_all2
               (\<lambda>entry c. written_as ext entry c
                  \<and> (snd entry = None \<longleftrightarrow>
                       c = SetValueCall (Address (fst entry)) (Key (fst entry)) []))
               (take (length ws) (sort_Slice ext less_entry
                  (accountStorageEntries order_deltas order_updates s))) ws)
    \<and> (fst (Commit ext order_deltas order_updates s) = None \<longrightarrow>
         (\<forall>k. deltas s k = Some None \<or> contractUpdates s k = Some None \<longrightarrow>
            SetValueCall (Address k) (Key k) []
              \<in> set (calls_of_Commit ext order_deltas order_updates s))
         \<and> (\<forall>k value. deltas s k = Some (Some value) \<or> contractUpdates s k = Some (Some value) \<longrightarrow>
              (\<exists>encoded. SetValueCall (Address k) (Key k) encoded
                    \<in> set (calls_of_Commit ext order_deltas order_updates s)
                 \<and> encoded \<noteq> [] \<and> encoding ext value (Address k) encoded)))"
proof -
  let ?es = "sort_Slice ext less_entry (accountStorageEntries order_deltas order_updates s)"
  let ?cs = "calls_of_Commit ext order_deltas order_updates s"
  let ?P = "\<lambda>entry c. written_as ext entry c
     \<and> (snd entry = None \<longleftrightarrow> c = SetValueCall (Address (fst entry)) (Key (fst entry)) [])"
  obtain r s' where c: "Commit ext order_deltas order_updates s = (r, s')"
    by (cases "Commit ext order_deltas order_updates s")
  from Commit_calls [OF c] obtain ws
    where ws: "calls s' = calls s @ ws \<and> r \<noteq> None \<or> calls s' = calls s @ ws @ [FastCommitCall]
           \<and> length ws = length ?es"
      "list_all2 (written_as ext) (take (length ws) ?es) ws" by blast
  have cs: "?cs = ws \<or> ?cs = ws @ [FastCommitCall]"
    using ws(1) calls_of_Commit_eq [OF c] by blast
  have P: "list_all2 ?P (take (length ws) ?es) ws"
    by (rule list_all2_mono [OF ws(2)]) (simp add: written_as_bytes [OF assms(2)])
  have es: "set ?es = {(k, v). deltas s k = Some v} \<union> {(k, v). contractUpdates s k = Some v}"
    using set_sorted_entries [OF assms(1,3,4)] .
  have success: "(\<forall>k. deltas s k = Some None \<or> contractUpdates s k = Some None \<longrightarrow>
            SetValueCall (Address k) (Key k) [] \<in> set ?cs)
         \<and> (\<forall>k value. deltas s k = Some (Some value) \<or> contractUpdates s k = Some (Some value) \<longrightarrow>
              (\<exists>encoded. SetValueCall (Address k) (Key k) encoded \<in> set ?cs
                 \<and> encoded \<noteq> [] \<and> encoding ext value (Address k) encoded))"
    if "r = None"
  proof -
    from that ws(1) have full: "calls s' = calls s @ ws @ [FastCommitCall]" "length ws = length ?es"
      by auto
    have cs': "?cs = ws @ [FastCommitCall]" using calls_of_Commit_eq [OF c full(1)] .
    have all: "list_all2 (written_as ext) ?es ws" using ws(2) full(2) by simp
    have written: "\<exists>c \<in> set ?cs. written_as ext (k, v) c"
      if "deltas s k = Some v \<or> contractUpdates s k = Some v" for k v
    proof -
      from that es have "(k, v) \<in> set ?es" by auto
      from list_all2_member [OF all this] show ?thesis using cs' by auto
    qed
    have a: "SetValueCall (Address k) (Key k) [] \<in> set ?cs"
      if "deltas s k = Some None \<or> contractUpdates s k = Some None" for k
      using written [OF that] by (auto simp: written_as_def)
    have b: "\<exists>encoded. SetValueCall (Address k) (Key k) encoded \<in> set ?cs
               \<and> encoded \<noteq> [] \<and> encoding ext value (Address k) encoded"
      if "deltas s k = Some (Some value) \<or> contractUpdates s k = Some (Some value)" for k "value"
      using written [OF that] encoding_nonempty [OF assms(2)] by (auto simp: written_as_def)
    from a b show ?thesis by blast
  qed
  from cs P have "\<exists>ws. (?cs = ws \<or> ?cs = ws @ [FastCommitCall]) \<and> list_all2 ?P (take (length ws) ?es) ws"
    by blast
  moreover have "fst (Commit ext order_deltas order_updates s) = None \<longrightarrow>
         (\<forall>k. deltas s k = Some None \<or> contractUpdates s k = Some None \<longrightarrow>
            SetValueCall (Address k) (Key k) [] \<in> set ?cs)
         \<and> (\<forall>k value. deltas s k = Some (Some value) \<or> contractUpdates s k = Some (Some value) \<longrightarrow>
              (\<exists>encoded. SetValueCall (Address k) (Key k) encoded \<in> set ?cs
                 \<and> encoded \<noteq> [] \<and> encoding ext value (Address k) encoded))"
    using success c by simp
  ultimately show ?thesis by blast
qed

theorem Commit_writes_every_entry_witness:
  "permutes memory_externals \<and> version_byte memory_externals
   \<and> visits [\<lparr>Address = addr_A, Key = ''k''\<rparr>] (deltas read_then_deleted)
   \<and> visits [] (contractUpdates read_then_deleted)
   \<and> fst (Commit memory_externals [\<lparr>Address = addr_A, Key = ''k''\<rparr>] [] read_then_deleted) = None
   \<and> deltas read_then_deleted \<lparr>Address = addr_A, Key = ''k''\<rparr> = Some None
   \<and> SetValueCall addr_A ''k'' []
       \<in> set (calls_of_Commit memory_externals [\<lparr>Address = addr_A, Key = ''k''\<rparr>] [] read_then_deleted)
   \<and> visits [\<lparr>Address = addr_A, Key = ''y''\<rparr>, \<lparr>Address = addr_B, Key = ''x''\<rparr>] (deltas two_writes)
   \<and> fst (Commit memory_externals
        [\<lparr>Address = addr_A, Key = ''y''\<rparr>, \<lparr>Address = addr_B, Key = ''x''\<rparr>] [] two_writes) = None
   \<and> deltas two_writes \<lparr>Address = addr_B, Key = ''x''\<rparr> = Some (Some 2)
   \<and> (\<exists>encoded. SetValueCall addr_B ''x'' encoded
         \<in> set (calls_of_Commit memory_externals
               [\<lparr>Address = addr_A, Key = ''y''\<rparr>, \<lparr>Address = addr_B, Key = ''x''\<rparr>] [] two_writes)
       \<and> encoded \<noteq> [] \<and> encoding memory_externals 2 addr_B encoded)"
proof -
  let ?k = "\<lparr>Address = addr_A, Key = ''k''\<rparr>"
  let ?o = "[\<lparr>Address = addr_A, Key = ''y''\<rparr>, \<lparr>Address = addr_B, Key = ''x''\<rparr>]"
  let ?x = "\<lparr>Address = addr_B, Key = ''x''\<rparr>"
  have v1: "visits [?k] (deltas read_then_deleted)" by (simp add: state_defs run_defs)
  have v2: "visits [] (contractUpdates read_then_deleted)" by (simp add: state_defs run_defs)
  have f1: "fst (Commit memory_externals [?k] [] read_then_deleted) = None"
    by (simp add: state_defs run_defs)
  have d1: "deltas read_then_deleted ?k = Some None" by (simp add: state_defs run_defs)
  have v3: "visits ?o (deltas two_writes)" by (simp add: run_defs two_writes_def insert_commute)
  have v4: "visits [] (contractUpdates two_writes)" by (simp add: run_defs two_writes_def)
  have f2: "fst (Commit memory_externals ?o [] two_writes) = None"
    by (simp add: run_defs two_writes_def)
  have d2: "deltas two_writes ?x = Some (Some 2)" by (simp add: run_defs two_writes_def)
  note t1 = Commit_writes_every_entry
    [OF permutes_memory_externals version_byte_memory_externals v1 v2]
  note t2 = Commit_writes_every_entry
    [OF permutes_memory_externals version_byte_memory_externals v3 v4]
  have r1: "SetValueCall addr_A ''k'' []
       \<in> set (calls_of_Commit memory_externals [?k] [] read_then_deleted)"
    using t1 f1 d1 by fastforce
  have r2: "\<exists>encoded. SetValueCall addr_B ''x'' encoded
         \<in> set (calls_of_Commit memory_externals ?o [] two_writes)
       \<and> encoded \<noteq> [] \<and> encoding memory_externals 2 addr_B encoded"
    using t2 f2 d2 by fastforce
  show ?thesis
    using permutes_memory_externals version_byte_memory_externals v1 v2 f1 d1 r1 v3 f2 d2 r2 by blast
qed

subsection \<open>Errors of a Commit\<close>

lemma encode_entry_Inl:
  "encode_entry ext entry s = (Inl err, s') \<Longrightarrow>
     \<exists>value. snd entry = Some value
       \<and> encoding_fails ext value (PersistentSlabStorage s) (Ledger s) (Address (fst entry)) err"
  unfolding encode_entry_def encoding_fails_def Let_def
  by (auto split: option.splits prod.splits sum.splits)







subsection \<open>The cache of ReadValue\<close>

lemma ValueExists_keeps_cached:
  assumes "cache s k = Some c" and "ValueExists ext address key s = (r, s')"
  shows "deltas s' = deltas s \<and> cache s' k = Some c"
  using assms
  by (auto simp: ValueExists_def called_def Let_def split: option.splits prod.splits sum.splits if_splits)

lemma ReadValue_keeps_cached:
  assumes "cache s k = Some c" and "ReadValue ext address key s = (r, s')"
  shows "deltas s' = deltas s \<and> cache s' k = Some c"
proof (cases "deltas s \<lparr>Address = address, Key = key\<rparr>")
  case (Some v)
  with assms show ?thesis by (auto simp: ReadValue_def split: option.splits)
next
  case None
  note d = None
  show ?thesis
  proof (cases "cache s \<lparr>Address = address, Key = key\<rparr>")
    case (Some v)
    with assms d show ?thesis by (auto simp: ReadValue_def split: option.splits)
  next
    case None
    with assms(1) have ne: "k \<noteq> \<lparr>Address = address, Key = key\<rparr>" by auto
    obtain res l where g: "Ledger_GetValue ext (Ledger s) address key = (res, l)"
      by (cases "Ledger_GetValue ext (Ledger s) address key")
    from assms d None g ne show ?thesis
      by (auto simp: ReadValue_def called_def Let_def split: sum.splits prod.splits if_splits)
  qed
qed

lemma perform_keeps_cached:
  assumes "deltas s k = None" and "cache s k = Some c"
    and "\<not> writes_to k op" and "perform ext op s = Some s'"
  shows "deltas s' k = None \<and> cache s' k = Some c"
proof (cases op)
  case (CallValueExists address key)
  obtain r s1 where "ValueExists ext address key s = (r, s1)" by (cases "ValueExists ext address key s")
  with assms CallValueExists ValueExists_keeps_cached [OF assms(2) this]
  show ?thesis by (auto split: sum.splits)
next
  case (CallReadValue address key)
  obtain r s1 where "ReadValue ext address key s = (r, s1)" by (cases "ReadValue ext address key s")
  with assms CallReadValue ReadValue_keeps_cached [OF assms(2) this]
  show ?thesis by (auto split: sum.splits)
next
  case (CallWriteValue address key v)
  with assms show ?thesis
    by (cases v) (auto simp: WriteValue_def)
next
  case (CallRecordContractUpdate address key contract)
  with assms show ?thesis by (auto simp: recordContractUpdate_def)
next
  case (CallCommit order_deltas order_updates)
  obtain r s1 where c: "Commit ext order_deltas order_updates s = (r, s1)"
    by (cases "Commit ext order_deltas order_updates s")
  with assms CallCommit Commit_frame [OF c] show ?thesis by (auto split: option.splits)
qed

lemma perform_all_keeps_cached:
  assumes "deltas s k = None" and "cache s k = Some c"
    and "\<forall>op \<in> set ops. \<not> writes_to k op" and "perform_all ext ops s = Some s'"
  shows "deltas s' k = None \<and> cache s' k = Some c"
  using assms
proof (induction ops arbitrary: s)
  case Nil
  then show ?case by simp
next
  case (Cons op ops)
  from Cons.prems(4) obtain s1 where p: "perform ext op s = Some s1"
    and rest: "perform_all ext ops s1 = Some s'"
    by (auto split: option.splits)
  have "deltas s1 k = None \<and> cache s1 k = Some c"
    using perform_keeps_cached [OF Cons.prems(1,2) _ p] Cons.prems(3) by simp
  then show ?case using Cons.IH [OF _ _ _ rest] Cons.prems(3) by simp
qed

lemma ReadValue_cached:
  assumes "deltas s \<lparr>Address = address, Key = key\<rparr> = None"
    and "cache s \<lparr>Address = address, Key = key\<rparr> = Some c"
  shows "ReadValue ext address key s =
           (Inr (case c of None \<Rightarrow> NilValue | Some v \<Rightarrow> SomeValue (Some v)), s)"
  using assms by (simp add: ReadValue_def split: option.splits)

lemma ReadValue_caches:
  assumes "deltas s \<lparr>Address = address, Key = key\<rparr> = None"
    and "ReadValue ext address key s = (Inr r, s1)"
  shows "deltas s1 \<lparr>Address = address, Key = key\<rparr> = None
    \<and> (r = NilValue \<and> cache s1 \<lparr>Address = address, Key = key\<rparr> = Some None
        \<or> (\<exists>v. r = SomeValue (Some v) \<and> cache s1 \<lparr>Address = address, Key = key\<rparr> = Some (Some v)))"
proof (cases "cache s \<lparr>Address = address, Key = key\<rparr>")
  case (Some c)
  from ReadValue_cached [OF assms(1) Some, of ext] assms(2) Some assms(1)
  show ?thesis by (cases c) auto
next
  case None
  obtain res l where g: "Ledger_GetValue ext (Ledger s) address key = (res, l)"
    by (cases "Ledger_GetValue ext (Ledger s) address key")
  from assms None g show ?thesis
    by (auto simp: ReadValue_def called_def Let_def split: sum.splits prod.splits if_splits)
qed

lemma ReadValue_loads:
  assumes "deltas s \<lparr>Address = address, Key = key\<rparr> = None"
    and "cache s \<lparr>Address = address, Key = key\<rparr> = None"
    and "ReadValue ext address key s = (Inr r, s1)"
  shows "\<exists>storedData l. Ledger_GetValue ext (Ledger s) address key = (Inr storedData, l)
     \<and> calls s1 = calls s @ [GetValueCall address key]
     \<and> (if storedData = [] then r = NilValue
        else (\<exists>storable storedValue v. DecodeStorable ext storedData = Inr storable
              \<and> fst (Storable_StoredValue ext storable (PersistentSlabStorage s) l) = Inr storedValue
              \<and> MustConvertStoredValue ext storedValue = Inr v \<and> r = SomeValue (Some v)))"
proof -
  obtain res l where g: "Ledger_GetValue ext (Ledger s) address key = (res, l)"
    by (cases "Ledger_GetValue ext (Ledger s) address key")
  from assms g obtain storedData where res: "res = Inr storedData"
    by (cases res) (auto simp: ReadValue_def called_def Let_def)
  show ?thesis
  proof (cases "storedData = []")
    case True
    with assms g res show ?thesis by (auto simp: ReadValue_def called_def Let_def)
  next
    case False
    with assms g res show ?thesis
      by (auto simp: ReadValue_def called_def Let_def split: sum.splits prod.splits)
  qed
qed

text \<open>
  C7. Let \<open>ReadValue\<close> return normally for a key that is not in \<open>deltas\<close>. Then the
  cache holds for the key what was returned: \<open>nil\<close> for \<open>NilValue\<close>, the value for a
  \<open>SomeValue\<close>. When the key was not in the cache before, the ledger was asked once, and
  the result is \<open>NilValue\<close> for no bytes and the decoded and converted value otherwise.
  After any further calls on the storage that return normally, none of them a write to the
  key, \<open>ReadValue\<close> of the key returns the same result and leaves the storage as it is:
  it does not call the ledger.
\<close>

theorem ReadValue_read_through:
  assumes "deltas s \<lparr>Address = address, Key = key\<rparr> = None"
    and "ReadValue ext address key s = (Inr r, s1)"
  shows "(r = NilValue \<and> cache s1 \<lparr>Address = address, Key = key\<rparr> = Some None
          \<or> (\<exists>v. r = SomeValue (Some v) \<and> cache s1 \<lparr>Address = address, Key = key\<rparr> = Some (Some v)))
    \<and> (cache s \<lparr>Address = address, Key = key\<rparr> = None \<longrightarrow>
         (\<exists>storedData l. Ledger_GetValue ext (Ledger s) address key = (Inr storedData, l)
            \<and> calls s1 = calls s @ [GetValueCall address key]
            \<and> (if storedData = [] then r = NilValue
               else (\<exists>storable storedValue v. DecodeStorable ext storedData = Inr storable
                  \<and> fst (Storable_StoredValue ext storable (PersistentSlabStorage s) l) = Inr storedValue
                  \<and> MustConvertStoredValue ext storedValue = Inr v \<and> r = SomeValue (Some v)))))
    \<and> (\<forall>ops s2. (\<forall>op \<in> set ops. \<not> writes_to \<lparr>Address = address, Key = key\<rparr> op)
           \<and> perform_all ext ops s1 = Some s2 \<longrightarrow>
         ReadValue ext address key s2 = (Inr r, s2))"
proof -
  let ?k = "\<lparr>Address = address, Key = key\<rparr>"
  note c = ReadValue_caches [OF assms]
  then obtain c' where c': "cache s1 ?k = Some c'"
    "r = (case c' of None \<Rightarrow> NilValue | Some v \<Rightarrow> SomeValue (Some v))"
    by auto
  have again: "ReadValue ext address key s2 = (Inr r, s2)"
    if "\<forall>op \<in> set ops. \<not> writes_to ?k op" "perform_all ext ops s1 = Some s2" for ops s2
  proof -
    have "deltas s2 ?k = None \<and> cache s2 ?k = Some c'"
      using perform_all_keeps_cached [OF _ c'(1) that] c by simp
    then show ?thesis using ReadValue_cached [of s2 address key c' ext] c'(2) by simp
  qed
  have load: "cache s ?k = None \<longrightarrow>
         (\<exists>storedData l. Ledger_GetValue ext (Ledger s) address key = (Inr storedData, l)
            \<and> calls s1 = calls s @ [GetValueCall address key]
            \<and> (if storedData = [] then r = NilValue
               else (\<exists>storable storedValue v. DecodeStorable ext storedData = Inr storable
                  \<and> fst (Storable_StoredValue ext storable (PersistentSlabStorage s) l) = Inr storedValue
                  \<and> MustConvertStoredValue ext storedValue = Inr v \<and> r = SomeValue (Some v))))"
    using ReadValue_loads [OF assms(1) _ assms(2)] by blast
  from c load again show ?thesis by blast
qed

theorem ReadValue_read_through_witness:
  "deltas seeded_storage \<lparr>Address = addr_A, Key = ''k''\<rparr> = None
   \<and> ReadValue memory_externals addr_A ''k'' seeded_storage = (Inr (SomeValue (Some 7)), read_k)
   \<and> cache read_k \<lparr>Address = addr_A, Key = ''k''\<rparr> = Some (Some 7)
   \<and> calls read_k = [GetValueCall addr_A ''k'']
   \<and> (\<exists>s2. perform_all memory_externals
          [CallValueExists addr_A ''k'', CallReadValue addr_B ''x'',
           CallWriteValue addr_B ''x'' (SomeValue (Some 1)), CallReadValue addr_A ''k''] read_k = Some s2
        \<and> ReadValue memory_externals addr_A ''k'' s2 = (Inr (SomeValue (Some 7)), s2)
        \<and> calls s2 = [GetValueCall addr_A ''k'', GetValueCall addr_B ''x''])
   \<and> deltas empty_storage \<lparr>Address = addr_A, Key = ''k''\<rparr> = None
   \<and> fst (ReadValue memory_externals addr_A ''k'' empty_storage) = Inr NilValue
   \<and> cache (snd (ReadValue memory_externals addr_A ''k'' empty_storage))
        \<lparr>Address = addr_A, Key = ''k''\<rparr> = Some None"
proof -
  let ?k = "\<lparr>Address = addr_A, Key = ''k''\<rparr>"
  let ?ops = "[CallValueExists addr_A ''k'', CallReadValue addr_B ''x'',
           CallWriteValue addr_B ''x'' (SomeValue (Some (1::byte))), CallReadValue addr_A ''k'']"
  define s2 where "s2 = the (perform_all memory_externals ?ops read_k)"
  define s3 where "s3 = snd (ReadValue memory_externals addr_A ''k'' empty_storage)"
  have d: "deltas seeded_storage ?k = None" by (simp add: state_defs run_defs)
  have r: "ReadValue memory_externals addr_A ''k'' seeded_storage = (Inr (SomeValue (Some 7)), read_k)"
    by (simp add: state_defs run_defs)
  have cl: "calls read_k = [GetValueCall addr_A ''k'']" by (simp add: state_defs run_defs)
  have p: "perform_all memory_externals ?ops read_k = Some s2"
    unfolding s2_def by (simp add: state_defs run_defs)
  have cl2: "calls s2 = [GetValueCall addr_A ''k'', GetValueCall addr_B ''x'']"
    unfolding s2_def by (simp add: state_defs run_defs)
  have nw: "\<forall>op \<in> set ?ops. \<not> writes_to ?k op" by (simp add: addr_A_def addr_B_def)
  have d3: "deltas empty_storage ?k = None" by (simp add: run_defs)
  have r3: "ReadValue memory_externals addr_A ''k'' empty_storage = (Inr NilValue, s3)"
    unfolding s3_def by (simp add: state_defs run_defs)
  have f3: "fst (ReadValue memory_externals addr_A ''k'' empty_storage) = Inr NilValue"
    by (simp add: r3)
  note t = ReadValue_read_through [OF d r]
  note t3 = ReadValue_read_through [OF d3 r3]
  have a: "cache read_k ?k = Some (Some 7)" using t by simp
  have b: "ReadValue memory_externals addr_A ''k'' s2 = (Inr (SomeValue (Some 7)), s2)"
    using t nw p by blast
  have c: "cache s3 ?k = Some None" using t3 by simp
  show ?thesis using d r a cl p b cl2 d3 f3 c unfolding s3_def by blast
qed

end
